theory Spec2Isabelle
  imports Main "HOL-Library.Word"
begin

section \<open>The diff-sampler of vata-reloaded: the data\<close>

text \<open>
  The program of \<^verbatim>\<open>examples/diff-sampler/diff-sampler.cc\<close> reads the frames of a
  capture file, strips the link, network and transport headers of each frame, and asks two
  automata whether they accept the bytes that remain.

  Bytes are \<open>8 word\<close>, the counters (\<^verbatim>\<open>size_t\<close>) are \<open>64 word\<close>, so that \<^verbatim>\<open>++c\<close> wraps
  around as it does in the program, and \<^verbatim>\<open>pkthdr->len\<close> (\<^verbatim>\<open>bpf_u_int32\<close>) is a
  \<open>32 word\<close>.
\<close>

type_synonym byte = "8 word"
type_synonym size_t = "64 word"

text \<open>
  A frame as the capture library hands it to the callback: the declared length
  \<^verbatim>\<open>pkthdr->len\<close> and the buffer at \<^verbatim>\<open>packet\<close>. The list \<open>packet\<close> holds the bytes that
  were captured, so its length is the buffer's true size (\<^verbatim>\<open>pkthdr->caplen\<close>); the program
  never looks at that size. It reads at \<^verbatim>\<open>packet + i\<close> whatever the memory holds there:
  \<open>beyond\<close> are the bytes that follow the captured ones in memory (the rest of the capture
  library's buffer), as far as they can be read. They are empty when nothing can be read
  past the captured bytes.
\<close>

record frame =
  len :: "32 word"
  packet :: "byte list"
  beyond :: "byte list"

definition memory :: "frame \<Rightarrow> byte list" where
  "memory f = packet f @ beyond f"

text \<open>
  What stops the process, or leaves defined behaviour:
  \<^item> \<open>AssertionFailed\<close>: \<^verbatim>\<open>assert(false)\<close>, which aborts the process;
  \<^item> \<open>ReadPastBuffer\<close>: a read at \<^verbatim>\<open>packet + i\<close> past the memory that can be read;
  \<^item> \<open>IndexOutOfRange\<close>: \<^verbatim>\<open>packet_lengths[i]\<close> with \<open>i\<close> outside the vector.
  The program checks neither of the last two; the model stops there with the state reached.
\<close>

datatype error = AssertionFailed | ReadPastBuffer | IndexOutOfRange

text \<open>What the program writes to its output streams, one event for each message.\<close>

datatype event =
  OtherL4 nat
  | Tick
  | Usage "string option"
  | LoadError string
  | AutDump string
  | OpenFailed string
  | LoopFailed
  | Report string "size_t list"

text \<open>
  The global variables of the program. The two automata \<^verbatim>\<open>aut1\<close> and \<^verbatim>\<open>aut2\<close> are
  assigned once in \<^verbatim>\<open>main\<close> and only read afterwards: the functions below take them as
  arguments.
\<close>

record globals =
  total_packets :: size_t
  payloaded_packets :: size_t
  vlan_packets :: size_t
  ipv4_packets :: size_t
  ipv6_packets :: size_t
  tcp_packets :: size_t
  udp_packets :: size_t
  ipip_packets :: size_t
  esp_packets :: size_t
  icmp_packets :: size_t
  gre_packets :: size_t
  icmp6_packets :: size_t
  v6_fragment_packets :: size_t
  ip6_in_ip4_packets :: size_t
  pim_packets :: size_t
  other_l3_packets :: size_t
  other_l4_packets :: size_t
  incons_packets :: size_t
  accepted_aut1 :: size_t
  accepted_aut2 :: size_t
  packet_lengths :: "size_t list"
  cout :: "event list"

definition init_globals :: globals where
  "init_globals =
     \<lparr>total_packets = 0, payloaded_packets = 0, vlan_packets = 0, ipv4_packets = 0,
      ipv6_packets = 0, tcp_packets = 0, udp_packets = 0, ipip_packets = 0,
      esp_packets = 0, icmp_packets = 0, gre_packets = 0, icmp6_packets = 0,
      v6_fragment_packets = 0, ip6_in_ip4_packets = 0, pim_packets = 0,
      other_l3_packets = 0, other_l4_packets = 0, incons_packets = 0,
      accepted_aut1 = 0, accepted_aut2 = 0,
      packet_lengths = replicate 2048 0, cout = []\<rparr>"

subsection \<open>Constants of the system headers\<close>

text \<open>
  The sizes of the header structures, the offsets of the fields the program reads and the
  protocol numbers come from the system's network headers (\<^verbatim>\<open>net/ethernet.h\<close>,
  \<^verbatim>\<open>netinet/ip.h\<close>, \<^verbatim>\<open>netinet/ip6.h\<close>, \<^verbatim>\<open>netinet/tcp.h\<close>, \<^verbatim>\<open>netinet/udp.h\<close>,
  \<^verbatim>\<open>netinet/ip_icmp.h\<close>, \<^verbatim>\<open>netinet/icmp6.h\<close>, \<^verbatim>\<open>netinet/in.h\<close>); \<^verbatim>\<open>vlan_ethhdr\<close> is
  the packed structure of the program itself.
\<close>

definition sizeof_ether_header :: nat where "sizeof_ether_header = 14"
definition sizeof_vlan_ethhdr :: nat where "sizeof_vlan_ethhdr = 18"
definition sizeof_ip :: nat where "sizeof_ip = 20"
definition sizeof_ip6_hdr :: nat where "sizeof_ip6_hdr = 40"
definition sizeof_udphdr :: nat where "sizeof_udphdr = 8"
definition sizeof_icmphdr :: nat where "sizeof_icmphdr = 8"
definition sizeof_icmp6_hdr :: nat where "sizeof_icmp6_hdr = 8"
definition sizeof_ip6_frag :: nat where "sizeof_ip6_frag = 8"

definition ETHERTYPE_VLAN :: "16 word" where "ETHERTYPE_VLAN = 0x8100"
definition ETHERTYPE_IP :: "16 word" where "ETHERTYPE_IP = 0x0800"
definition ETHERTYPE_IPV6 :: "16 word" where "ETHERTYPE_IPV6 = 0x86dd"

definition IPPROTO_ICMP :: nat where "IPPROTO_ICMP = 1"
definition IPPROTO_IPIP :: nat where "IPPROTO_IPIP = 4"
definition IPPROTO_TCP :: nat where "IPPROTO_TCP = 6"
definition IPPROTO_UDP :: nat where "IPPROTO_UDP = 17"
definition IPPROTO_IPV6 :: nat where "IPPROTO_IPV6 = 41"
definition IPPROTO_FRAGMENT :: nat where "IPPROTO_FRAGMENT = 44"
definition IPPROTO_GRE :: nat where "IPPROTO_GRE = 47"
definition IPPROTO_ESP :: nat where "IPPROTO_ESP = 50"
definition IPPROTO_ICMPV6 :: nat where "IPPROTO_ICMPV6 = 58"
definition IPPROTO_PIM :: nat where "IPPROTO_PIM = 103"

subsection \<open>Reading memory\<close>

text \<open>
  The byte at \<^verbatim>\<open>packet + i\<close>, where \<open>p\<close> is the memory at \<^verbatim>\<open>packet\<close>. The offsets are
  \<^verbatim>\<open>size_t\<close> in the program; every header that is skipped is at most 60 bytes long and all
  but the last are read first, so an offset stays below the size of the memory plus 100 and
  a \<open>nat\<close> holds it with no wrap-around.
\<close>

definition byte_at :: "byte list \<Rightarrow> nat \<Rightarrow> error + byte" where
  "byte_at p i = (if i < length p then Inr (p ! i) else Inl ReadPastBuffer)"

text \<open>
  \<^verbatim>\<open>ntohs\<close> of the 16-bit field at \<^verbatim>\<open>packet + i\<close>: the field is in network byte order, the
  first byte is the high one.
\<close>

definition ntohs_at :: "byte list \<Rightarrow> nat \<Rightarrow> error + 16 word" where
  "ntohs_at p i =
     (case byte_at p i of
        Inl e \<Rightarrow> Inl e
      | Inr hi \<Rightarrow>
          (case byte_at p (i + 1) of
             Inl e \<Rightarrow> Inl e
           | Inr lo \<Rightarrow> Inr (push_bit 8 (ucast hi) + ucast lo)))"

text \<open>
  The fields the program reads, each at its offset in the header that starts at
  \<^verbatim>\<open>packet + off\<close>: \<^verbatim>\<open>ether_type\<close> (bytes 12 and 13 of \<^verbatim>\<open>ether_header\<close>, 16 and 17 of
  \<^verbatim>\<open>vlan_ethhdr\<close>), \<^verbatim>\<open>ip_p\<close> (byte 9 of \<^verbatim>\<open>ip\<close>), \<^verbatim>\<open>ip6_nxt\<close> (byte 6 of \<^verbatim>\<open>ip6_hdr\<close>),
  \<^verbatim>\<open>th_off\<close> (the high four bits of byte 12 of \<^verbatim>\<open>tcphdr\<close>) and \<^verbatim>\<open>ip6f_nxt\<close> (byte 0 of
  \<^verbatim>\<open>ip6_frag\<close>). The protocol numbers are assigned to an \<^verbatim>\<open>unsigned\<close>; they are bytes, so
  a \<open>nat\<close> holds them with no wrap-around.
\<close>

definition eth_ether_type :: "byte list \<Rightarrow> error + 16 word" where
  "eth_ether_type p = ntohs_at p 12"

definition vlan_ether_type :: "byte list \<Rightarrow> error + 16 word" where
  "vlan_ether_type p = ntohs_at p 16"

definition ip_p :: "byte list \<Rightarrow> nat \<Rightarrow> error + nat" where
  "ip_p p off = map_sum id unat (byte_at p (off + 9))"

definition ip6_nxt :: "byte list \<Rightarrow> nat \<Rightarrow> error + nat" where
  "ip6_nxt p off = map_sum id unat (byte_at p (off + 6))"

definition th_off :: "byte list \<Rightarrow> nat \<Rightarrow> error + nat" where
  "th_off p off = map_sum id (\<lambda>b. unat (drop_bit 4 b)) (byte_at p (off + 12))"

definition ip6f_nxt :: "byte list \<Rightarrow> nat \<Rightarrow> error + nat" where
  "ip6f_nxt p off = map_sum id unat (byte_at p off)"

subsection \<open>The payload\<close>

text \<open>
  The value \<^verbatim>\<open>get_payload\<close> returns is a \<^verbatim>\<open>Word\<close>, a vector of symbols: either the empty
  \<^verbatim>\<open>Word()\<close>, or \<^verbatim>\<open>Word(packet + b, packet + e)\<close>, the copy of the bytes at \<^verbatim>\<open>packet\<close>
  from offset \<open>b\<close> up to offset \<open>e\<close> (excluded). The model keeps the two offsets, since
  the properties of the payload are stated on them; \<open>Word_symbols\<close> reads the bytes from
  the memory, and a copy that leaves the memory is the error \<open>ReadPastBuffer\<close>. The
  callback is the only caller of \<^verbatim>\<open>get_payload\<close>, and it reads the bytes there.
\<close>

datatype Word = EmptyWord | RangeWord nat nat

definition Word_empty :: "Word \<Rightarrow> bool" where
  "Word_empty w = (case w of EmptyWord \<Rightarrow> True | RangeWord b e \<Rightarrow> e \<le> b)"

definition Word_symbols :: "byte list \<Rightarrow> Word \<Rightarrow> error + byte list" where
  "Word_symbols p w =
     (case w of
        EmptyWord \<Rightarrow> Inr []
      | RangeWord b e \<Rightarrow>
          if e \<le> b then Inr []
          else if e \<le> length p then Inr (take (e - b) (drop b p))
          else Inl ReadPastBuffer)"

section \<open>\<^verbatim>\<open>get_payload\<close>\<close>

text \<open>
  The loop over the transport and extension headers. Its variables are the offset, the
  current protocol number and the flag \<^verbatim>\<open>ip_in_ip\<close>; \<^verbatim>\<open>processing\<close> is set again in the
  branches of IP-in-IP and of the IPv6 fragment header only, which are the recursive calls.
  The other branches either return the empty word or leave the loop, and then the function
  returns the bytes from the offset to \<^verbatim>\<open>max(len, offset)\<close>.
\<close>

definition payload_slice :: "frame \<Rightarrow> nat \<Rightarrow> Word" where
  "payload_slice f offset = RangeWord offset (max (unat (len f)) offset)"

function l4_loop :: "frame \<Rightarrow> nat \<Rightarrow> nat \<Rightarrow> bool \<Rightarrow> globals \<Rightarrow> (error + Word) \<times> globals" where
  "l4_loop f offset l4_proto ip_in_ip s =
    (if IPPROTO_TCP = l4_proto then
       (let s = s\<lparr>tcp_packets := tcp_packets s + 1\<rparr> in
        case th_off (memory f) offset of
          Inl e \<Rightarrow> (Inl e, s)
        | Inr off \<Rightarrow> (Inr (payload_slice f (offset + off * 4)), s))
     else if IPPROTO_UDP = l4_proto then
       (let s = s\<lparr>udp_packets := udp_packets s + 1\<rparr> in
        (Inr (payload_slice f (offset + sizeof_udphdr)), s))
     else if IPPROTO_IPIP = l4_proto then
       (let s = s\<lparr>ipip_packets := ipip_packets s + 1\<rparr> in
        if ip_in_ip then (Inl AssertionFailed, s)
        else
          (case ip_p (memory f) offset of
             Inl e \<Rightarrow> (Inl e, s)
           | Inr p \<Rightarrow> l4_loop f (offset + sizeof_ip) p True s))
     else if IPPROTO_ESP = l4_proto then
       (let s = s\<lparr>esp_packets := esp_packets s + 1\<rparr> in
        (Inr (payload_slice f (offset + 8)), s))
     else if IPPROTO_ICMP = l4_proto then
       (let s = s\<lparr>icmp_packets := icmp_packets s + 1\<rparr> in
        (Inr (payload_slice f (offset + sizeof_icmphdr)), s))
     else if IPPROTO_GRE = l4_proto then
       (let s = s\<lparr>gre_packets := gre_packets s + 1\<rparr> in
        (Inr EmptyWord, s))
     else if IPPROTO_ICMPV6 = l4_proto then
       (let s = s\<lparr>icmp6_packets := icmp6_packets s + 1\<rparr> in
        (Inr (payload_slice f (offset + sizeof_icmp6_hdr)), s))
     else if IPPROTO_FRAGMENT = l4_proto then
       (let s = s\<lparr>v6_fragment_packets := v6_fragment_packets s + 1\<rparr> in
        case ip6f_nxt (memory f) offset of
          Inl e \<Rightarrow> (Inl e, s)
        | Inr p \<Rightarrow> l4_loop f (offset + sizeof_ip6_frag) p ip_in_ip s)
     else if IPPROTO_IPV6 = l4_proto then
       (let s = s\<lparr>ip6_in_ip4_packets := ip6_in_ip4_packets s + 1\<rparr> in
        case ip6_nxt (memory f) offset of
          Inl e \<Rightarrow> (Inl e, s)
        | Inr p \<Rightarrow> (Inr (payload_slice f (offset + sizeof_ip6_hdr)), s))
     else if IPPROTO_PIM = l4_proto then
       (let s = s\<lparr>pim_packets := pim_packets s + 1\<rparr> in
        (Inr EmptyWord, s))
     else
       (let s = s\<lparr>cout := cout s @ [OtherL4 l4_proto]\<rparr>;
            s = s\<lparr>other_l4_packets := other_l4_packets s + 1\<rparr> in
        (Inr EmptyWord, s)))"
  by pat_completeness auto
termination
proof (relation "measure (\<lambda>(f, offset, l4_proto, ip_in_ip, s). length (memory f) + 20 - offset)")
  show "wf (measure (\<lambda>(f, offset, l4_proto, ip_in_ip, s). length (memory f) + 20 - offset))"
    by simp
next
  fix f :: frame and offset l4_proto :: nat and ip_in_ip :: bool and s x :: globals and p :: nat
  assume "ip_p (memory f) offset = Inr p"
  then have "offset + 9 < length (memory f)"
    by (auto simp: ip_p_def byte_at_def split: if_splits)
  then show "((f, offset + sizeof_ip, p, True, x), (f, offset, l4_proto, ip_in_ip, s))
      \<in> measure (\<lambda>(f, offset, l4_proto, ip_in_ip, s). length (memory f) + 20 - offset)"
    by (simp add: sizeof_ip_def)
next
  fix f :: frame and offset l4_proto :: nat and ip_in_ip :: bool and s x :: globals and p :: nat
  assume "ip6f_nxt (memory f) offset = Inr p"
  then have "offset < length (memory f)"
    by (auto simp: ip6f_nxt_def byte_at_def split: if_splits)
  then show "((f, offset + sizeof_ip6_frag, p, ip_in_ip, x), (f, offset, l4_proto, ip_in_ip, s))
      \<in> measure (\<lambda>(f, offset, l4_proto, ip_in_ip, s). length (memory f) + 20 - offset)"
    by (simp add: sizeof_ip6_frag_def)
qed

declare l4_loop.simps [simp del]

text \<open>
  The function itself: the Ethernet header, the VLAN tag if there is one, then the IPv4 or
  IPv6 header, then the loop. Its two assertions, that the pointers to the header and to
  the buffer are not null, hold for every frame the capture library delivers.
\<close>

definition get_payload :: "frame \<Rightarrow> globals \<Rightarrow> (error + Word) \<times> globals" where
  "get_payload f s =
    (case eth_ether_type (memory f) of
       Inl e \<Rightarrow> (Inl e, s)
     | Inr ether_type \<Rightarrow>
        (case
           (if ETHERTYPE_VLAN = ether_type then
              (let s = s\<lparr>vlan_packets := vlan_packets s + 1\<rparr> in
               case vlan_ether_type (memory f) of
                 Inl e \<Rightarrow> (Inl e, s)
               | Inr t \<Rightarrow> (Inr (sizeof_vlan_ethhdr, t), s))
            else (Inr (sizeof_ether_header, ether_type), s))
         of
           (Inl e, s) \<Rightarrow> (Inl e, s)
         | (Inr (offset, ether_type), s) \<Rightarrow>
            if ETHERTYPE_IP = ether_type then
              (let s = s\<lparr>ipv4_packets := ipv4_packets s + 1\<rparr> in
               case ip_p (memory f) offset of
                 Inl e \<Rightarrow> (Inl e, s)
               | Inr l4_proto \<Rightarrow> l4_loop f (offset + sizeof_ip) l4_proto False s)
            else if ETHERTYPE_IPV6 = ether_type then
              (let s = s\<lparr>ipv6_packets := ipv6_packets s + 1\<rparr> in
               case ip6_nxt (memory f) offset of
                 Inl e \<Rightarrow> (Inl e, s)
               | Inr l4_proto \<Rightarrow> l4_loop f (offset + sizeof_ip6_hdr) l4_proto False s)
            else
              (let s = s\<lparr>other_l3_packets := other_l3_packets s + 1\<rparr> in
               (Inr EmptyWord, s))))"

section \<open>\<^verbatim>\<open>packetHandler\<close> and the capture loop\<close>

text \<open>
  The callback. \<open>is_in_lang\<close> is the membership test of the automata library, which is
  not part of the program: it is a parameter, as are the two automata.
\<close>

definition packetHandler ::
  "('nfa \<Rightarrow> byte list \<Rightarrow> bool) \<Rightarrow> 'nfa \<Rightarrow> 'nfa \<Rightarrow> frame \<Rightarrow> globals \<Rightarrow> error option \<times> globals" where
  "packetHandler is_in_lang aut1 aut2 f s =
    (let i = unat (len f) in
     if length (packet_lengths s) \<le> i then (Some IndexOutOfRange, s)
     else
      (let s = s\<lparr>packet_lengths := (packet_lengths s)[i := packet_lengths s ! i + 1]\<rparr>;
           s = s\<lparr>total_packets := total_packets s + 1\<rparr>
       in
        case get_payload f s of
          (Inl e, s) \<Rightarrow> (Some e, s)
        | (Inr payload, s) \<Rightarrow>
            if Word_empty payload then (None, s)
            else
             (case Word_symbols (memory f) payload of
                Inl e \<Rightarrow> (Some e, s)
              | Inr w \<Rightarrow>
                 (let s = s\<lparr>payloaded_packets := payloaded_packets s + 1\<rparr>;
                      in_aut1 = is_in_lang aut1 w;
                      in_aut2 = is_in_lang aut2 w;
                      s = (if in_aut1 then s\<lparr>accepted_aut1 := accepted_aut1 s + 1\<rparr> else s);
                      s = (if in_aut2 then s\<lparr>accepted_aut2 := accepted_aut2 s + 1\<rparr> else s);
                      s = (if in_aut1 \<noteq> in_aut2
                           then s\<lparr>incons_packets := incons_packets s + 1\<rparr> else s);
                      s = (if total_packets s mod 1000 = 0
                           then s\<lparr>cout := cout s @ [Tick]\<rparr> else s)
                  in (None, s)))))"

text \<open>
  \<^verbatim>\<open>pcap_loop\<close> belongs to the capture library: it calls the callback once for each frame
  of the capture, in order. A callback that stops the process stops the loop.
\<close>

fun pcap_loop ::
  "(frame \<Rightarrow> globals \<Rightarrow> error option \<times> globals) \<Rightarrow> frame list \<Rightarrow> globals \<Rightarrow> error option \<times> globals" where
  "pcap_loop callback [] s = (None, s)"
| "pcap_loop callback (f # fs) s =
     (case callback f s of
        (None, s') \<Rightarrow> pcap_loop callback fs s'
      | (Some e, s') \<Rightarrow> (Some e, s'))"

section \<open>\<^verbatim>\<open>main\<close>\<close>

text \<open>
  What \<^verbatim>\<open>main\<close> receives from outside the program: the files that can be opened, with
  their contents; the parser and constructor of automata, which either throws (the message
  of the exception) or returns an automaton; the printer of automata; the membership test;
  and the capture library, whose \<^verbatim>\<open>pcap_open_offline\<close> either fails (the text it leaves in
  \<^verbatim>\<open>errbuf\<close>) or opens a capture: its frames, and whether reading them ends with an error
  (\<^verbatim>\<open>pcap_loop\<close> then returns a negative number).
\<close>

record capture =
  frames :: "frame list"
  read_fails :: bool

record 'nfa env =
  files :: "string \<Rightarrow> string option"
  parse_construct :: "string \<Rightarrow> string + 'nfa"
  to_string :: "'nfa \<Rightarrow> string"
  is_in_lang :: "'nfa \<Rightarrow> byte list \<Rightarrow> bool"
  pcap_open_offline :: "string \<Rightarrow> string + capture"

definition EXIT_SUCCESS :: int where "EXIT_SUCCESS = 0"
definition EXIT_FAILURE :: int where "EXIT_FAILURE = 1"

text \<open>How the process ends: \<^verbatim>\<open>main\<close> returns an exit code, or the process is stopped.\<close>

datatype exit_status = Returned int | Stopped error

definition print_usage :: "string option \<Rightarrow> event" where
  "print_usage prog_name = Usage prog_name"

definition load_aut :: "'nfa env \<Rightarrow> string \<Rightarrow> string + 'nfa" where
  "load_aut E file_name =
     (case files E file_name of
        Some input \<Rightarrow> parse_construct E input
      | None \<Rightarrow> Inl (''Cannot open file '' @ file_name))"

text \<open>The counters in the order the report prints them.\<close>

definition report_values :: "globals \<Rightarrow> size_t list" where
  "report_values s =
     [total_packets s, vlan_packets s, ipv4_packets s, ipv6_packets s, other_l3_packets s,
      tcp_packets s, udp_packets s, ipip_packets s, esp_packets s, icmp_packets s,
      gre_packets s, icmp6_packets s, v6_fragment_packets s, ip6_in_ip4_packets s,
      pim_packets s, other_l4_packets s, payloaded_packets s, accepted_aut1 s,
      accepted_aut2 s, incons_packets s]"

text \<open>
  \<^verbatim>\<open>main\<close>, with \<open>argv\<close> the list of its arguments (\<^verbatim>\<open>argc\<close> is its length). The result is
  how the process ends and what it has written. The elapsed time that the report prints is
  left out.
\<close>

definition main :: "'nfa env \<Rightarrow> string list \<Rightarrow> exit_status \<times> event list" where
  "main E argv =
    (if length argv \<noteq> 4 then
       (Returned EXIT_FAILURE, [print_usage (case argv of [] \<Rightarrow> None | a # _ \<Rightarrow> Some a)])
     else
       (let aut1_file = argv ! 1; aut2_file = argv ! 2; packets_file = argv ! 3 in
        case load_aut E aut1_file of
          Inl what \<Rightarrow> (Returned EXIT_FAILURE, [LoadError what])
        | Inr aut1 \<Rightarrow>
           (case load_aut E aut2_file of
              Inl what \<Rightarrow> (Returned EXIT_FAILURE, [LoadError what])
            | Inr aut2 \<Rightarrow>
               (let s = init_globals\<lparr>cout := [AutDump (to_string E aut1), AutDump (to_string E aut2)]\<rparr> in
                case pcap_open_offline E packets_file of
                  Inl errbuf \<Rightarrow> (Returned EXIT_FAILURE, cout s @ [OpenFailed errbuf])
                | Inr descr \<Rightarrow>
                   (case pcap_loop (packetHandler (is_in_lang E) aut1 aut2) (frames descr) s of
                      (Some e, s) \<Rightarrow> (Stopped e, cout s)
                    | (None, s) \<Rightarrow>
                       if read_fails descr then (Returned EXIT_FAILURE, cout s @ [LoopFailed])
                       else (Returned EXIT_SUCCESS,
                             cout s @ [Report packets_file (report_values s)]))))))"

section \<open>Notions used to state the properties\<close>

text \<open>
  The payload of a frame does not depend on the counters (lemma \<open>get_payload_fst\<close> below),
  so it can be read off a run of \<^verbatim>\<open>get_payload\<close> from the initial state.
\<close>

definition payload_of :: "frame \<Rightarrow> error + Word" where
  "payload_of f = fst (get_payload f init_globals)"

text \<open>
  A frame has a payload when \<^verbatim>\<open>get_payload\<close> returns a word that is not empty. Its payload
  is empty when the word returned is empty; among these, the frame is truncated when the
  loop ended at a layer that carries data and the declared length does not exceed the
  offset reached.
\<close>

definition has_payload :: "frame \<Rightarrow> bool" where
  "has_payload f = (case payload_of f of Inl e \<Rightarrow> False | Inr w \<Rightarrow> \<not> Word_empty w)"

definition empty_payload :: "frame \<Rightarrow> bool" where
  "empty_payload f = (case payload_of f of Inl e \<Rightarrow> False | Inr w \<Rightarrow> Word_empty w)"

definition truncated :: "frame \<Rightarrow> bool" where
  "truncated f =
     (case payload_of f of
        Inl e \<Rightarrow> False
      | Inr EmptyWord \<Rightarrow> False
      | Inr (RangeWord b e) \<Rightarrow> unat (len f) \<le> b)"

text \<open>The state with the two acceptance counters exchanged.\<close>

definition swap_accepted :: "globals \<Rightarrow> globals" where
  "swap_accepted s = s\<lparr>accepted_aut1 := accepted_aut2 s, accepted_aut2 := accepted_aut1 s\<rparr>"

text \<open>
  A frame is a disagreeing frame of the automata \<open>aut1\<close> and \<open>aut2\<close> when it has a payload
  and exactly one of the two automata accepts the bytes of the payload.
\<close>

definition disagreeing :: "('nfa \<Rightarrow> byte list \<Rightarrow> bool) \<Rightarrow> 'nfa \<Rightarrow> 'nfa \<Rightarrow> frame \<Rightarrow> bool" where
  "disagreeing L aut1 aut2 f =
     (case payload_of f of
        Inl e \<Rightarrow> False
      | Inr w \<Rightarrow>
          \<not> Word_empty w \<and>
          (case Word_symbols (memory f) w of
             Inl e \<Rightarrow> False
           | Inr sy \<Rightarrow> L aut1 sy \<noteq> L aut2 sy))"

definition is_Report :: "event \<Rightarrow> bool" where
  "is_Report e = (case e of Report file vs \<Rightarrow> True | _ \<Rightarrow> False)"

subsection \<open>Example frames and automata\<close>

text \<open>
  An automaton that accepts the words starting with a given byte, standing for the library's
  automata in the examples.
\<close>

definition starts_with :: "byte \<Rightarrow> byte list \<Rightarrow> bool" where
  "starts_with a w = (case w of [] \<Rightarrow> False | x # xs \<Rightarrow> x = a)"

text \<open>An ARP frame of 60 bytes (ethertype \<open>0x0806\<close>).\<close>

definition arp_frame :: frame where
  "arp_frame =
     \<lparr>len = 60, packet = replicate 12 0 @ [0x08, 0x06] @ replicate 46 0, beyond = []\<rparr>"

text \<open>Ethernet, IPv4, UDP and four bytes of payload; the whole frame was captured.\<close>

definition udp_frame :: frame where
  "udp_frame =
     \<lparr>len = 46,
      packet = replicate 12 0 @ [0x08, 0x00] @ replicate 9 0 @ [17] @ replicate 10 0
        @ replicate 8 0 @ [0, 2, 3, 4], beyond = []\<rparr>"

text \<open>
  The same headers in a frame of 100 bytes on the wire of which the capture kept the
  first 42. The memory after them holds 58 bytes left by something else.
\<close>

definition snap_udp_frame :: frame where
  "snap_udp_frame =
     \<lparr>len = 100,
      packet = replicate 12 0 @ [0x08, 0x00] @ replicate 9 0 @ [17] @ replicate 10 0
        @ replicate 8 0,
      beyond = replicate 58 0xAA\<rparr>"

text \<open>Ethernet, IPv4 with protocol 41, IPv6 with next header UDP, UDP, four bytes.\<close>

definition ip6_in_ip4_udp_frame :: frame where
  "ip6_in_ip4_udp_frame =
     \<lparr>len = 86,
      packet = replicate 12 0 @ [0x08, 0x00] @ replicate 9 0 @ [41] @ replicate 10 0
        @ replicate 6 0 @ [17] @ replicate 33 0 @ replicate 8 0 @ [1, 2, 3, 4], beyond = []\<rparr>"

text \<open>Ethernet, IPv4 with protocol 4, IPv4 with protocol UDP, UDP, four bytes.\<close>

definition ipip_udp_frame :: frame where
  "ipip_udp_frame =
     \<lparr>len = 66,
      packet = replicate 12 0 @ [0x08, 0x00] @ replicate 9 0 @ [4] @ replicate 10 0
        @ replicate 9 0 @ [17] @ replicate 10 0 @ replicate 8 0 @ [1, 2, 3, 4], beyond = []\<rparr>"

text \<open>Two levels of tunnelling: IPv4 with protocol 4 twice, then IPv4 with UDP.\<close>

definition ipip_ipip_udp_frame :: frame where
  "ipip_ipip_udp_frame =
     \<lparr>len = 86,
      packet = replicate 12 0 @ [0x08, 0x00] @ replicate 9 0 @ [4] @ replicate 10 0
        @ replicate 9 0 @ [4] @ replicate 10 0 @ replicate 9 0 @ [17] @ replicate 10 0
        @ replicate 8 0 @ [1, 2, 3, 4], beyond = []\<rparr>"

text \<open>A frame of 2048 bytes of zeros.\<close>

definition long_frame :: frame where
  "long_frame = \<lparr>len = 2048, packet = replicate 2048 0, beyond = []\<rparr>"

text \<open>
  Three environments of \<^verbatim>\<open>main\<close>: one where no file can be opened; one where the
  automata load and the capture does not open; one where the capture opens and holds the
  frames given.
\<close>

definition no_files_env :: "byte env" where
  "no_files_env =
     \<lparr>files = (\<lambda>name. None), parse_construct = (\<lambda>input. Inl ''parse error''),
      to_string = (\<lambda>a. []), is_in_lang = starts_with,
      pcap_open_offline = (\<lambda>name. Inl ''No such file or directory'')\<rparr>"

definition no_capture_env :: "byte env" where
  "no_capture_env =
     \<lparr>files = (\<lambda>name. Some name), parse_construct = (\<lambda>input. Inr (of_nat (length input))),
      to_string = (\<lambda>a. []), is_in_lang = starts_with,
      pcap_open_offline = (\<lambda>name. Inl ''No such file or directory'')\<rparr>"

definition capture_env :: "frame list \<Rightarrow> byte env" where
  "capture_env fs =
     \<lparr>files = (\<lambda>name. Some name), parse_construct = (\<lambda>input. Inr (of_nat (length input))),
      to_string = (\<lambda>a. []), is_in_lang = starts_with,
      pcap_open_offline = (\<lambda>name. Inr \<lparr>frames = fs, read_fails = False\<rparr>)\<rparr>"

text \<open>Ethernet, IPv4 and UDP headers and nothing after them.\<close>

definition udp_header_only_frame :: frame where
  "udp_header_only_frame =
     \<lparr>len = 42,
      packet = replicate 12 0 @ [0x08, 0x00] @ replicate 9 0 @ [17] @ replicate 10 0
        @ replicate 8 0, beyond = []\<rparr>"

section \<open>Lemmas on the loop of \<^verbatim>\<open>get_payload\<close>\<close>

lemmas sizeof_defs =
  sizeof_ether_header_def sizeof_vlan_ethhdr_def sizeof_ip_def sizeof_ip6_hdr_def
  sizeof_udphdr_def sizeof_icmphdr_def sizeof_icmp6_hdr_def sizeof_ip6_frag_def

lemmas ETHERTYPE_defs = ETHERTYPE_VLAN_def ETHERTYPE_IP_def ETHERTYPE_IPV6_def

lemmas IPPROTO_defs =
  IPPROTO_ICMP_def IPPROTO_IPIP_def IPPROTO_TCP_def IPPROTO_UDP_def IPPROTO_IPV6_def
  IPPROTO_FRAGMENT_def IPPROTO_GRE_def IPPROTO_ESP_def IPPROTO_ICMPV6_def IPPROTO_PIM_def

lemma l4_proto_cases [case_names TCP UDP IPIP ESP ICMP GRE ICMPV6 FRAGMENT IPV6 PIM other]:
  obtains "p = IPPROTO_TCP" | "p = IPPROTO_UDP" | "p = IPPROTO_IPIP" | "p = IPPROTO_ESP"
  | "p = IPPROTO_ICMP" | "p = IPPROTO_GRE" | "p = IPPROTO_ICMPV6" | "p = IPPROTO_FRAGMENT"
  | "p = IPPROTO_IPV6" | "p = IPPROTO_PIM"
  | "p \<noteq> IPPROTO_TCP" "p \<noteq> IPPROTO_UDP" "p \<noteq> IPPROTO_IPIP" "p \<noteq> IPPROTO_ESP"
    "p \<noteq> IPPROTO_ICMP" "p \<noteq> IPPROTO_GRE" "p \<noteq> IPPROTO_ICMPV6" "p \<noteq> IPPROTO_FRAGMENT"
    "p \<noteq> IPPROTO_IPV6" "p \<noteq> IPPROTO_PIM"
  by blast

lemma l4_loop_TCP:
  "l4_loop f off IPPROTO_TCP b s =
     (case th_off (memory f) off of
        Inl e \<Rightarrow> (Inl e, s\<lparr>tcp_packets := tcp_packets s + 1\<rparr>)
      | Inr n \<Rightarrow> (Inr (payload_slice f (off + n * 4)), s\<lparr>tcp_packets := tcp_packets s + 1\<rparr>))"
  by (subst l4_loop.simps) (simp add: Let_def)

lemma l4_loop_UDP:
  "l4_loop f off IPPROTO_UDP b s =
     (Inr (payload_slice f (off + sizeof_udphdr)), s\<lparr>udp_packets := udp_packets s + 1\<rparr>)"
  by (subst l4_loop.simps) (simp add: Let_def IPPROTO_defs)

lemma l4_loop_IPIP:
  "l4_loop f off IPPROTO_IPIP b s =
     (if b then (Inl AssertionFailed, s\<lparr>ipip_packets := ipip_packets s + 1\<rparr>)
      else case ip_p (memory f) off of
        Inl e \<Rightarrow> (Inl e, s\<lparr>ipip_packets := ipip_packets s + 1\<rparr>)
      | Inr q \<Rightarrow> l4_loop f (off + sizeof_ip) q True (s\<lparr>ipip_packets := ipip_packets s + 1\<rparr>))"
  by (subst l4_loop.simps) (simp add: Let_def IPPROTO_defs)

lemma l4_loop_ESP:
  "l4_loop f off IPPROTO_ESP b s =
     (Inr (payload_slice f (off + 8)), s\<lparr>esp_packets := esp_packets s + 1\<rparr>)"
  by (subst l4_loop.simps) (simp add: Let_def IPPROTO_defs)

lemma l4_loop_ICMP:
  "l4_loop f off IPPROTO_ICMP b s =
     (Inr (payload_slice f (off + sizeof_icmphdr)), s\<lparr>icmp_packets := icmp_packets s + 1\<rparr>)"
  by (subst l4_loop.simps) (simp add: Let_def IPPROTO_defs)

lemma l4_loop_GRE:
  "l4_loop f off IPPROTO_GRE b s = (Inr EmptyWord, s\<lparr>gre_packets := gre_packets s + 1\<rparr>)"
  by (subst l4_loop.simps) (simp add: Let_def IPPROTO_defs)

lemma l4_loop_ICMPV6:
  "l4_loop f off IPPROTO_ICMPV6 b s =
     (Inr (payload_slice f (off + sizeof_icmp6_hdr)), s\<lparr>icmp6_packets := icmp6_packets s + 1\<rparr>)"
  by (subst l4_loop.simps) (simp add: Let_def IPPROTO_defs)

lemma l4_loop_FRAGMENT:
  "l4_loop f off IPPROTO_FRAGMENT b s =
     (case ip6f_nxt (memory f) off of
        Inl e \<Rightarrow> (Inl e, s\<lparr>v6_fragment_packets := v6_fragment_packets s + 1\<rparr>)
      | Inr q \<Rightarrow>
          l4_loop f (off + sizeof_ip6_frag) q b
            (s\<lparr>v6_fragment_packets := v6_fragment_packets s + 1\<rparr>))"
  by (subst l4_loop.simps) (simp add: Let_def IPPROTO_defs)

lemma l4_loop_IPV6:
  "l4_loop f off IPPROTO_IPV6 b s =
     (case ip6_nxt (memory f) off of
        Inl e \<Rightarrow> (Inl e, s\<lparr>ip6_in_ip4_packets := ip6_in_ip4_packets s + 1\<rparr>)
      | Inr q \<Rightarrow>
          (Inr (payload_slice f (off + sizeof_ip6_hdr)),
           s\<lparr>ip6_in_ip4_packets := ip6_in_ip4_packets s + 1\<rparr>))"
  by (subst l4_loop.simps) (simp add: Let_def IPPROTO_defs)

lemma l4_loop_PIM:
  "l4_loop f off IPPROTO_PIM b s = (Inr EmptyWord, s\<lparr>pim_packets := pim_packets s + 1\<rparr>)"
  by (subst l4_loop.simps) (simp add: Let_def IPPROTO_defs)

lemma l4_loop_other:
  assumes "p \<noteq> IPPROTO_TCP" "p \<noteq> IPPROTO_UDP" "p \<noteq> IPPROTO_IPIP" "p \<noteq> IPPROTO_ESP"
    "p \<noteq> IPPROTO_ICMP" "p \<noteq> IPPROTO_GRE" "p \<noteq> IPPROTO_ICMPV6" "p \<noteq> IPPROTO_FRAGMENT"
    "p \<noteq> IPPROTO_IPV6" "p \<noteq> IPPROTO_PIM"
  shows "l4_loop f off p b s =
     (Inr EmptyWord, s\<lparr>cout := cout s @ [OtherL4 p], other_l4_packets := other_l4_packets s + 1\<rparr>)"
  using assms by (subst l4_loop.simps) (simp add: Let_def eq_commute[of _ p])

lemmas l4_loop_eqs =
  l4_loop_TCP l4_loop_UDP l4_loop_IPIP l4_loop_ESP l4_loop_ICMP l4_loop_GRE l4_loop_ICMPV6
  l4_loop_FRAGMENT l4_loop_IPV6 l4_loop_PIM l4_loop_other

lemma l4_loop_induct [consumes 0, case_names loop]:
  fixes P :: "frame \<Rightarrow> nat \<Rightarrow> nat \<Rightarrow> bool \<Rightarrow> globals \<Rightarrow> bool"
  assumes step: "\<And>f off p b s.
      (\<And>q. p = IPPROTO_IPIP \<Longrightarrow> \<not> b \<Longrightarrow> ip_p (memory f) off = Inr q \<Longrightarrow>
          P f (off + sizeof_ip) q True (s\<lparr>ipip_packets := ipip_packets s + 1\<rparr>)) \<Longrightarrow>
      (\<And>q. p = IPPROTO_FRAGMENT \<Longrightarrow> ip6f_nxt (memory f) off = Inr q \<Longrightarrow>
          P f (off + sizeof_ip6_frag) q b
            (s\<lparr>v6_fragment_packets := v6_fragment_packets s + 1\<rparr>)) \<Longrightarrow>
      P f off p b s"
  shows "P f off p b s"
proof (induction f off p b s rule: l4_loop.induct)
  case (1 f offset l4_proto ip_in_ip s)
  show ?case
  proof (rule step)
    fix q
    assume "l4_proto = IPPROTO_IPIP" "\<not> ip_in_ip" "ip_p (memory f) offset = Inr q"
    then show "P f (offset + sizeof_ip) q True (s\<lparr>ipip_packets := ipip_packets s + 1\<rparr>)"
      by (intro "1.IH"(1)) (simp_all add: IPPROTO_defs)
  next
    fix q
    assume "l4_proto = IPPROTO_FRAGMENT" "ip6f_nxt (memory f) offset = Inr q"
    then show "P f (offset + sizeof_ip6_frag) q ip_in_ip
        (s\<lparr>v6_fragment_packets := v6_fragment_packets s + 1\<rparr>)"
      by (intro "1.IH"(2)) (simp_all add: IPPROTO_defs)
  qed
qed

lemma l4_loop_fst: "fst (l4_loop f off p b s) = fst (l4_loop f off p b s')"
proof (induction f off p b s arbitrary: s' rule: l4_loop_induct)
  case (loop f off p b s)
  show ?case
  proof (cases p rule: l4_proto_cases)
    case IPIP
    then show ?thesis
      by (auto simp: l4_loop_IPIP split: sum.splits intro: loop.IH(1))
  next
    case FRAGMENT
    then show ?thesis
      by (auto simp: l4_loop_FRAGMENT split: sum.splits intro: loop.IH(2))
  qed (simp_all add: l4_loop_eqs split: sum.splits)
qed

lemma l4_loop_keeps:
  "total_packets (snd (l4_loop f off p b s)) = total_packets s \<and>
   payloaded_packets (snd (l4_loop f off p b s)) = payloaded_packets s \<and>
   vlan_packets (snd (l4_loop f off p b s)) = vlan_packets s \<and>
   ipv4_packets (snd (l4_loop f off p b s)) = ipv4_packets s \<and>
   ipv6_packets (snd (l4_loop f off p b s)) = ipv6_packets s \<and>
   other_l3_packets (snd (l4_loop f off p b s)) = other_l3_packets s \<and>
   incons_packets (snd (l4_loop f off p b s)) = incons_packets s \<and>
   accepted_aut1 (snd (l4_loop f off p b s)) = accepted_aut1 s \<and>
   accepted_aut2 (snd (l4_loop f off p b s)) = accepted_aut2 s \<and>
   packet_lengths (snd (l4_loop f off p b s)) = packet_lengths s"
proof (induction f off p b s rule: l4_loop_induct)
  case (loop f off p b s)
  show ?case
  proof (cases p rule: l4_proto_cases)
    case IPIP
    then show ?thesis using loop.IH(1)
      by (simp add: l4_loop_IPIP split: sum.splits)
  next
    case FRAGMENT
    then show ?thesis using loop.IH(2)
      by (simp add: l4_loop_FRAGMENT split: sum.splits)
  qed (simp_all add: l4_loop_eqs split: sum.splits)
qed

lemma byte_at_Inl: "byte_at p i = Inl e \<Longrightarrow> e = ReadPastBuffer"
  by (simp add: byte_at_def split: if_splits)

lemma read_errors:
  "th_off p off = Inl e \<Longrightarrow> e = ReadPastBuffer"
  "ip_p p off = Inl e \<Longrightarrow> e = ReadPastBuffer"
  "ip6_nxt p off = Inl e \<Longrightarrow> e = ReadPastBuffer"
  "ip6f_nxt p off = Inl e \<Longrightarrow> e = ReadPastBuffer"
  "ntohs_at p off = Inl e \<Longrightarrow> e = ReadPastBuffer"
  by (auto simp: th_off_def ip_p_def ip6_nxt_def ip6f_nxt_def ntohs_at_def byte_at_def
      split: if_splits sum.splits)

lemma l4_loop_range:
  "fst (l4_loop f off p b s) = Inr (RangeWord x y) \<Longrightarrow> y = max (unat (len f)) x \<and> off \<le> x"
proof (induction f off p b s rule: l4_loop_induct)
  case (loop f off p b s)
  show ?case
  proof (cases p rule: l4_proto_cases)
    case IPIP
    then show ?thesis using loop.IH(1) loop.prems
      by (auto simp: l4_loop_IPIP split: sum.splits if_splits)
  next
    case FRAGMENT
    then show ?thesis using loop.IH(2) loop.prems
      by (auto simp: l4_loop_FRAGMENT split: sum.splits)
  qed (use loop.prems in \<open>auto simp: l4_loop_eqs payload_slice_def split: sum.splits\<close>)
qed

lemma l4_loop_error:
  "fst (l4_loop f off p b s) = Inl e \<Longrightarrow> e = ReadPastBuffer \<or> e = AssertionFailed"
proof (induction f off p b s rule: l4_loop_induct)
  case (loop f off p b s)
  show ?case
  proof (cases p rule: l4_proto_cases)
    case IPIP
    then show ?thesis using loop.IH(1) loop.prems
      by (auto simp: l4_loop_IPIP split: sum.splits if_splits dest: read_errors)
  next
    case FRAGMENT
    then show ?thesis using loop.IH(2) loop.prems
      by (auto simp: l4_loop_FRAGMENT split: sum.splits dest: read_errors)
  qed (use loop.prems in \<open>auto simp: l4_loop_eqs split: sum.splits dest: read_errors\<close>)
qed

lemma l4_loop_ipip:
  "(fst (l4_loop f off p b s) = Inl AssertionFailed \<longleftrightarrow>
      ipip_packets (snd (l4_loop f off p b s)) = ipip_packets s + (if b then 1 else 2)) \<and>
   (ipip_packets (snd (l4_loop f off p b s)) = ipip_packets s \<or>
    ipip_packets (snd (l4_loop f off p b s)) = ipip_packets s + 1 \<or>
    \<not> b \<and> ipip_packets (snd (l4_loop f off p b s)) = ipip_packets s + 2)"
proof (induction f off p b s rule: l4_loop_induct)
  case (loop f off p b s)
  show ?case
  proof (cases p rule: l4_proto_cases)
    case IPIP
    then show ?thesis using loop.IH(1)
      by (auto simp: l4_loop_IPIP split: sum.splits if_splits dest: read_errors)
  next
    case FRAGMENT
    then show ?thesis using loop.IH(2)
      by (auto simp: l4_loop_FRAGMENT split: sum.splits dest: read_errors)
  qed (auto simp: l4_loop_eqs split: sum.splits dest: read_errors)
qed

lemma l4_loop_terminal:
  "(if fst (l4_loop f off p b s) = Inr EmptyWord then
        (other_l4_packets (snd (l4_loop f off p b s)) = other_l4_packets s + 1 \<and>
         gre_packets (snd (l4_loop f off p b s)) = gre_packets s \<and>
         pim_packets (snd (l4_loop f off p b s)) = pim_packets s) \<or>
        (other_l4_packets (snd (l4_loop f off p b s)) = other_l4_packets s \<and>
         gre_packets (snd (l4_loop f off p b s)) = gre_packets s + 1 \<and>
         pim_packets (snd (l4_loop f off p b s)) = pim_packets s) \<or>
        (other_l4_packets (snd (l4_loop f off p b s)) = other_l4_packets s \<and>
         gre_packets (snd (l4_loop f off p b s)) = gre_packets s \<and>
         pim_packets (snd (l4_loop f off p b s)) = pim_packets s + 1)
    else
        other_l4_packets (snd (l4_loop f off p b s)) = other_l4_packets s \<and>
        gre_packets (snd (l4_loop f off p b s)) = gre_packets s \<and>
        pim_packets (snd (l4_loop f off p b s)) = pim_packets s)"
proof (induction f off p b s rule: l4_loop_induct)
  case (loop f off p b s)
  show ?case
  proof (cases p rule: l4_proto_cases)
    case IPIP
    then show ?thesis using loop.IH(1)
      by (auto simp: l4_loop_IPIP split: sum.splits if_splits)
  next
    case FRAGMENT
    then show ?thesis using loop.IH(2)
      by (auto simp: l4_loop_FRAGMENT split: sum.splits if_splits)
  qed (simp_all add: l4_loop_eqs payload_slice_def split: sum.splits)
qed

lemma l4_loop_swap:
  "l4_loop f off p b (swap_accepted s) =
     (fst (l4_loop f off p b s), swap_accepted (snd (l4_loop f off p b s)))"
proof (induction f off p b s rule: l4_loop_induct)
  case (loop f off p b s)
  have sw: "\<And>g. swap_accepted (s\<lparr>ipip_packets := g\<rparr>) = (swap_accepted s)\<lparr>ipip_packets := g\<rparr>"
    "\<And>g. swap_accepted (s\<lparr>v6_fragment_packets := g\<rparr>) = (swap_accepted s)\<lparr>v6_fragment_packets := g\<rparr>"
    by (simp_all add: swap_accepted_def)
  show ?case
  proof (cases p rule: l4_proto_cases)
    case IPIP
    then show ?thesis using loop.IH(1)
      by (simp add: l4_loop_IPIP sw split: sum.splits if_splits) (simp add: swap_accepted_def)
  next
    case FRAGMENT
    then show ?thesis using loop.IH(2)
      by (simp add: l4_loop_FRAGMENT sw split: sum.splits) (simp add: swap_accepted_def)
  qed (simp_all add: l4_loop_eqs swap_accepted_def split: sum.splits)
qed

section \<open>Lemmas on \<^verbatim>\<open>get_payload\<close>\<close>

lemma get_payload_cases [consumes 0, case_names link_error ipv4_error ipv6_error ipv4 ipv6 other_l3]:
  fixes f :: frame and s :: globals
  obtains
    (link_error) v where
      "get_payload f s = (Inl ReadPastBuffer, s\<lparr>vlan_packets := v\<rparr>)"
  | (ipv4_error) v where
      "get_payload f s =
         (Inl ReadPastBuffer, s\<lparr>vlan_packets := v, ipv4_packets := ipv4_packets s + 1\<rparr>)"
  | (ipv6_error) v where
      "get_payload f s =
         (Inl ReadPastBuffer, s\<lparr>vlan_packets := v, ipv6_packets := ipv6_packets s + 1\<rparr>)"
  | (ipv4) v off q where
      "get_payload f s =
         l4_loop f off q False (s\<lparr>vlan_packets := v, ipv4_packets := ipv4_packets s + 1\<rparr>)"
  | (ipv6) v off q where
      "get_payload f s =
         l4_loop f off q False (s\<lparr>vlan_packets := v, ipv6_packets := ipv6_packets s + 1\<rparr>)"
  | (other_l3) v where
      "get_payload f s =
         (Inr EmptyWord, s\<lparr>vlan_packets := v, other_l3_packets := other_l3_packets s + 1\<rparr>)"
proof (cases "eth_ether_type (memory f)")
  case (Inl e)
  then have "get_payload f s = (Inl ReadPastBuffer, s\<lparr>vlan_packets := vlan_packets s\<rparr>)"
    by (auto simp: get_payload_def eth_ether_type_def dest: read_errors)
  then show ?thesis using link_error by blast
next
  case (Inr t)
  show ?thesis
  proof (cases "ETHERTYPE_VLAN = t \<and> isl (vlan_ether_type (memory f))")
    case True
    then have "get_payload f s = (Inl ReadPastBuffer, s\<lparr>vlan_packets := vlan_packets s + 1\<rparr>)"
      using Inr by (auto simp: get_payload_def vlan_ether_type_def isl_def dest: read_errors)
    then show ?thesis using link_error by blast
  next
    case False
    have "\<exists>v off t'. get_payload f s =
       (if ETHERTYPE_IP = t' then
          (case ip_p (memory f) off of
             Inl e \<Rightarrow> (Inl e, s\<lparr>vlan_packets := v, ipv4_packets := ipv4_packets s + 1\<rparr>)
           | Inr q \<Rightarrow>
               l4_loop f (off + sizeof_ip) q False
                 (s\<lparr>vlan_packets := v, ipv4_packets := ipv4_packets s + 1\<rparr>))
        else if ETHERTYPE_IPV6 = t' then
          (case ip6_nxt (memory f) off of
             Inl e \<Rightarrow> (Inl e, s\<lparr>vlan_packets := v, ipv6_packets := ipv6_packets s + 1\<rparr>)
           | Inr q \<Rightarrow>
               l4_loop f (off + sizeof_ip6_hdr) q False
                 (s\<lparr>vlan_packets := v, ipv6_packets := ipv6_packets s + 1\<rparr>))
        else (Inr EmptyWord, s\<lparr>vlan_packets := v, other_l3_packets := other_l3_packets s + 1\<rparr>))"
    proof (cases "ETHERTYPE_VLAN = t")
      case True
      with False obtain t2 where "vlan_ether_type (memory f) = Inr t2"
        by (cases "vlan_ether_type (memory f)") auto
      with Inr True show ?thesis
        by (intro exI[of _ "vlan_packets s + 1"] exI[of _ sizeof_vlan_ethhdr] exI[of _ t2])
          (simp add: get_payload_def Let_def split: sum.splits)
    next
      case False
      with Inr show ?thesis
        by (intro exI[of _ "vlan_packets s"] exI[of _ sizeof_ether_header] exI[of _ t])
          (simp add: get_payload_def Let_def split: sum.splits)
    qed
    then obtain v off t' where gp: "get_payload f s =
       (if ETHERTYPE_IP = t' then
          (case ip_p (memory f) off of
             Inl e \<Rightarrow> (Inl e, s\<lparr>vlan_packets := v, ipv4_packets := ipv4_packets s + 1\<rparr>)
           | Inr q \<Rightarrow>
               l4_loop f (off + sizeof_ip) q False
                 (s\<lparr>vlan_packets := v, ipv4_packets := ipv4_packets s + 1\<rparr>))
        else if ETHERTYPE_IPV6 = t' then
          (case ip6_nxt (memory f) off of
             Inl e \<Rightarrow> (Inl e, s\<lparr>vlan_packets := v, ipv6_packets := ipv6_packets s + 1\<rparr>)
           | Inr q \<Rightarrow>
               l4_loop f (off + sizeof_ip6_hdr) q False
                 (s\<lparr>vlan_packets := v, ipv6_packets := ipv6_packets s + 1\<rparr>))
        else (Inr EmptyWord, s\<lparr>vlan_packets := v, other_l3_packets := other_l3_packets s + 1\<rparr>))"
      by blast
    consider "ETHERTYPE_IP = t'" | "ETHERTYPE_IP \<noteq> t'" "ETHERTYPE_IPV6 = t'"
      | "ETHERTYPE_IP \<noteq> t'" "ETHERTYPE_IPV6 \<noteq> t'"
      by blast
    then show ?thesis
    proof cases
      case 1
      show ?thesis
      proof (cases "ip_p (memory f) off")
        case (Inl e)
        then have "get_payload f s =
            (Inl ReadPastBuffer, s\<lparr>vlan_packets := v, ipv4_packets := ipv4_packets s + 1\<rparr>)"
          using 1 gp by (auto dest: read_errors)
        then show ?thesis using ipv4_error by blast
      next
        case (Inr q)
        then have "get_payload f s =
            l4_loop f (off + sizeof_ip) q False
              (s\<lparr>vlan_packets := v, ipv4_packets := ipv4_packets s + 1\<rparr>)"
          using 1 gp by simp
        then show ?thesis using ipv4 by blast
      qed
    next
      case 2
      show ?thesis
      proof (cases "ip6_nxt (memory f) off")
        case (Inl e)
        then have "get_payload f s =
            (Inl ReadPastBuffer, s\<lparr>vlan_packets := v, ipv6_packets := ipv6_packets s + 1\<rparr>)"
          using 2 gp by (auto dest: read_errors)
        then show ?thesis using ipv6_error by blast
      next
        case (Inr q)
        then have "get_payload f s =
            l4_loop f (off + sizeof_ip6_hdr) q False
              (s\<lparr>vlan_packets := v, ipv6_packets := ipv6_packets s + 1\<rparr>)"
          using 2 gp by simp
        then show ?thesis using ipv6 by blast
      qed
    next
      case 3
      then have "get_payload f s =
          (Inr EmptyWord, s\<lparr>vlan_packets := v, other_l3_packets := other_l3_packets s + 1\<rparr>)"
        using gp by simp
      then show ?thesis using other_l3 by blast
    qed
  qed
qed

lemma get_payload_fst: "fst (get_payload f s) = payload_of f"
proof -
  have "fst (get_payload f s) = fst (get_payload f s')" for s s'
    by (auto simp: get_payload_def Let_def split: sum.splits intro: l4_loop_fst)
  then show ?thesis by (simp add: payload_of_def)
qed

lemma get_payload_keeps:
  "total_packets (snd (get_payload f s)) = total_packets s \<and>
   payloaded_packets (snd (get_payload f s)) = payloaded_packets s \<and>
   incons_packets (snd (get_payload f s)) = incons_packets s \<and>
   accepted_aut1 (snd (get_payload f s)) = accepted_aut1 s \<and>
   accepted_aut2 (snd (get_payload f s)) = accepted_aut2 s \<and>
   packet_lengths (snd (get_payload f s)) = packet_lengths s"
  by (cases f s rule: get_payload_cases) (auto simp: l4_loop_keeps)

lemma get_payload_range:
  assumes "fst (get_payload f s) = Inr (RangeWord x y)"
  shows "y = max (unat (len f)) x"
  using assms by (cases f s rule: get_payload_cases) (auto dest: l4_loop_range)

lemma get_payload_error:
  assumes "fst (get_payload f s) = Inl e"
  shows "e = ReadPastBuffer \<or> e = AssertionFailed"
  using assms by (cases f s rule: get_payload_cases) (auto dest: l4_loop_error)

lemma get_payload_l3:
  assumes "fst (get_payload f s) = Inr w"
  shows "(ipv4_packets (snd (get_payload f s)) = ipv4_packets s + 1 \<and>
          ipv6_packets (snd (get_payload f s)) = ipv6_packets s \<and>
          other_l3_packets (snd (get_payload f s)) = other_l3_packets s) \<or>
         (ipv4_packets (snd (get_payload f s)) = ipv4_packets s \<and>
          ipv6_packets (snd (get_payload f s)) = ipv6_packets s + 1 \<and>
          other_l3_packets (snd (get_payload f s)) = other_l3_packets s) \<or>
         (ipv4_packets (snd (get_payload f s)) = ipv4_packets s \<and>
          ipv6_packets (snd (get_payload f s)) = ipv6_packets s \<and>
          other_l3_packets (snd (get_payload f s)) = other_l3_packets s + 1)"
  using assms by (cases f s rule: get_payload_cases) (auto simp: l4_loop_keeps)

lemma get_payload_ipip:
  "(fst (get_payload f s) = Inl AssertionFailed \<longleftrightarrow>
      ipip_packets (snd (get_payload f s)) = ipip_packets s + 2) \<and>
   (ipip_packets (snd (get_payload f s)) = ipip_packets s \<or>
    ipip_packets (snd (get_payload f s)) = ipip_packets s + 1 \<or>
    ipip_packets (snd (get_payload f s)) = ipip_packets s + 2)"
proof (cases f s rule: get_payload_cases)
  case (ipv4 v off q)
  then show ?thesis
    using l4_loop_ipip[of f off q False "s\<lparr>vlan_packets := v, ipv4_packets := ipv4_packets s + 1\<rparr>"]
    by simp
next
  case (ipv6 v off q)
  then show ?thesis
    using l4_loop_ipip[of f off q False "s\<lparr>vlan_packets := v, ipv6_packets := ipv6_packets s + 1\<rparr>"]
    by simp
qed simp_all

lemma get_payload_terminal:
  "(if fst (get_payload f s) = Inr EmptyWord then
      (other_l3_packets (snd (get_payload f s)) = other_l3_packets s + 1 \<and>
       other_l4_packets (snd (get_payload f s)) = other_l4_packets s \<and>
       gre_packets (snd (get_payload f s)) = gre_packets s \<and>
       pim_packets (snd (get_payload f s)) = pim_packets s) \<or>
      (other_l3_packets (snd (get_payload f s)) = other_l3_packets s \<and>
       other_l4_packets (snd (get_payload f s)) = other_l4_packets s + 1 \<and>
       gre_packets (snd (get_payload f s)) = gre_packets s \<and>
       pim_packets (snd (get_payload f s)) = pim_packets s) \<or>
      (other_l3_packets (snd (get_payload f s)) = other_l3_packets s \<and>
       other_l4_packets (snd (get_payload f s)) = other_l4_packets s \<and>
       gre_packets (snd (get_payload f s)) = gre_packets s + 1 \<and>
       pim_packets (snd (get_payload f s)) = pim_packets s) \<or>
      (other_l3_packets (snd (get_payload f s)) = other_l3_packets s \<and>
       other_l4_packets (snd (get_payload f s)) = other_l4_packets s \<and>
       gre_packets (snd (get_payload f s)) = gre_packets s \<and>
       pim_packets (snd (get_payload f s)) = pim_packets s + 1)
    else
      other_l3_packets (snd (get_payload f s)) = other_l3_packets s \<and>
      other_l4_packets (snd (get_payload f s)) = other_l4_packets s \<and>
      gre_packets (snd (get_payload f s)) = gre_packets s \<and>
      pim_packets (snd (get_payload f s)) = pim_packets s)"
proof (cases f s rule: get_payload_cases)
  case (ipv4 v off q)
  then show ?thesis
    using l4_loop_terminal[of f off q False "s\<lparr>vlan_packets := v, ipv4_packets := ipv4_packets s + 1\<rparr>"]
    by (simp add: l4_loop_keeps split: if_splits)
next
  case (ipv6 v off q)
  then show ?thesis
    using l4_loop_terminal[of f off q False "s\<lparr>vlan_packets := v, ipv6_packets := ipv6_packets s + 1\<rparr>"]
    by (simp add: l4_loop_keeps split: if_splits)
qed simp_all

lemma get_payload_swap:
  "get_payload f (swap_accepted s) =
     (fst (get_payload f s), swap_accepted (snd (get_payload f s)))"
proof -
  have sw: "\<And>g. swap_accepted (s\<lparr>vlan_packets := g\<rparr>) = (swap_accepted s)\<lparr>vlan_packets := g\<rparr>"
    "\<And>g t. swap_accepted (t\<lparr>ipv4_packets := g\<rparr>) = (swap_accepted t)\<lparr>ipv4_packets := g\<rparr>"
    "\<And>g t. swap_accepted (t\<lparr>ipv6_packets := g\<rparr>) = (swap_accepted t)\<lparr>ipv6_packets := g\<rparr>"
    "\<And>g t. swap_accepted (t\<lparr>other_l3_packets := g\<rparr>) = (swap_accepted t)\<lparr>other_l3_packets := g\<rparr>"
    by (simp_all add: swap_accepted_def)
  have [simp]: "\<And>t. vlan_packets (swap_accepted t) = vlan_packets t"
    "\<And>t. ipv4_packets (swap_accepted t) = ipv4_packets t"
    "\<And>t. ipv6_packets (swap_accepted t) = ipv6_packets t"
    "\<And>t. other_l3_packets (swap_accepted t) = other_l3_packets t"
    by (simp_all add: swap_accepted_def)
  show ?thesis
    by (simp add: get_payload_def Let_def l4_loop_swap sw[symmetric] split: sum.splits)
qed

lemmas frame_eval =
  memory_def get_payload_def eth_ether_type_def vlan_ether_type_def ntohs_at_def byte_at_def ip_p_def
  ip6_nxt_def ip6f_nxt_def th_off_def payload_slice_def l4_loop.simps nth_append Let_def
  ETHERTYPE_defs IPPROTO_defs sizeof_defs

section \<open>The payload is a range that ends at the declared length\<close>

text \<open>
  Claim C1, as amended. Whenever \<^verbatim>\<open>get_payload\<close> returns the bytes from offset \<open>b\<close> to offset
  \<open>e\<close>, the start does not exceed the end, and the end is the larger of the declared length
  and the start: when the declared length does not exceed the offset that the headers
  reach, the payload is empty instead of having a negative length. A payload that is not
  empty ends at the declared length, so it lies inside the buffer exactly when the declared
  length does not exceed the size of the buffer; its bytes are then the bytes of the buffer
  from \<open>b\<close> up to \<open>e\<close>.
\<close>

theorem get_payload_range_of_frame:
  assumes "get_payload f s = (Inr (RangeWord b e), s')"
  shows "b \<le> e \<and> e = max (unat (len f)) b \<and>
    (unat (len f) \<le> b \<longrightarrow> Word_empty (RangeWord b e)) \<and>
    (\<not> Word_empty (RangeWord b e) \<longrightarrow>
       b < e \<and> e = unat (len f) \<and>
       (e \<le> length (packet f) \<longleftrightarrow> unat (len f) \<le> length (packet f)) \<and>
       (unat (len f) \<le> length (packet f) \<longrightarrow>
          Word_symbols (memory f) (RangeWord b e) = Inr (take (e - b) (drop b (packet f)))))"
proof -
  from assms have "fst (get_payload f s) = Inr (RangeWord b e)"
    by simp
  then have "e = max (unat (len f)) b"
    by (rule get_payload_range)
  then show ?thesis
    by (auto simp: Word_empty_def Word_symbols_def memory_def)
qed

theorem get_payload_range_of_frame_witness:
  "get_payload udp_frame init_globals =
     (Inr (RangeWord 42 46), init_globals\<lparr>ipv4_packets := 1, udp_packets := 1\<rparr>) \<and>
   (42::nat) \<le> 46 \<and> 46 = max (unat (len udp_frame)) 42 \<and>
   \<not> Word_empty (RangeWord 42 46) \<and> (42::nat) < 46 \<and> 46 = unat (len udp_frame) \<and>
   46 \<le> length (packet udp_frame) \<and>
   Word_symbols (memory udp_frame) (RangeWord 42 46) = Inr (take (46 - 42) (drop 42 (packet udp_frame))) \<and>
   take (46 - 42) (drop 42 (packet udp_frame)) = [0, 2, 3, 4]"
proof -
  have run: "get_payload udp_frame init_globals =
      (Inr (RangeWord 42 46), init_globals\<lparr>ipv4_packets := 1, udp_packets := 1\<rparr>)"
    by (simp add: frame_eval udp_frame_def init_globals_def)
  have "\<not> Word_empty (RangeWord 42 46)" "46 \<le> length (packet udp_frame)"
    "unat (len udp_frame) \<le> length (packet udp_frame)"
    "take (46 - 42) (drop 42 (packet udp_frame)) = [0, 2, 3, 4]"
    by (simp_all add: Word_empty_def udp_frame_def)
  with get_payload_range_of_frame [OF run] run show ?thesis
    by blast
qed

text \<open>
  The claim as it stands fails on a frame of which the capture kept less than the declared
  length: for the frame of 100 bytes with 42 bytes captured, the payload returned is not
  empty and runs from offset 42 to offset 100, past the 42 bytes of the buffer. None of the
  58 bytes that the word copies is a byte of the frame.
\<close>

theorem payload_outside_buffer_counterexample:
  "fst (get_payload snap_udp_frame init_globals) = Inr (RangeWord 42 100) \<and>
   \<not> Word_empty (RangeWord 42 100) \<and> length (packet snap_udp_frame) = 42 \<and>
   Word_symbols (memory snap_udp_frame) (RangeWord 42 100) = Inr (replicate 58 0xAA)"
  by (simp add: frame_eval snap_udp_frame_def init_globals_def Word_empty_def Word_symbols_def)

section \<open>Lemmas on the callback\<close>

lemma Word_symbols_error: "Word_symbols p w = Inl e \<Longrightarrow> e = ReadPastBuffer"
  by (auto simp: Word_symbols_def split: Word.splits if_splits)

lemma packetHandler_cases [consumes 0, case_names index_error payload_error empty copy_error sampled]:
  fixes f :: frame and s :: globals
  defines "s1 \<equiv> s\<lparr>packet_lengths :=
      (packet_lengths s)[unat (len f) := packet_lengths s ! unat (len f) + 1],
      total_packets := total_packets s + 1\<rparr>"
  obtains
    (index_error)
      "length (packet_lengths s) \<le> unat (len f)"
      "packetHandler L a1 a2 f s = (Some IndexOutOfRange, s)"
  | (payload_error) e where
      "unat (len f) < length (packet_lengths s)"
      "fst (get_payload f s1) = Inl e"
      "packetHandler L a1 a2 f s = (Some e, snd (get_payload f s1))"
  | (empty) w where
      "unat (len f) < length (packet_lengths s)"
      "fst (get_payload f s1) = Inr w" "Word_empty w"
      "packetHandler L a1 a2 f s = (None, snd (get_payload f s1))"
  | (copy_error) w where
      "unat (len f) < length (packet_lengths s)"
      "fst (get_payload f s1) = Inr w" "\<not> Word_empty w"
      "Word_symbols (memory f) w = Inl ReadPastBuffer"
      "packetHandler L a1 a2 f s = (Some ReadPastBuffer, snd (get_payload f s1))"
  | (sampled) w sy s2 where
      "unat (len f) < length (packet_lengths s)"
      "fst (get_payload f s1) = Inr w" "\<not> Word_empty w"
      "Word_symbols (memory f) w = Inr sy"
      "s2 = snd (get_payload f s1)"
      "packetHandler L a1 a2 f s =
         (None, s2\<lparr>payloaded_packets := payloaded_packets s2 + 1,
            accepted_aut1 := accepted_aut1 s2 + (if L a1 sy then 1 else 0),
            accepted_aut2 := accepted_aut2 s2 + (if L a2 sy then 1 else 0),
            incons_packets := incons_packets s2 + (if L a1 sy \<noteq> L a2 sy then 1 else 0),
            cout := cout s2 @ (if total_packets s2 mod 1000 = 0 then [Tick] else [])\<rparr>)"
proof (cases "length (packet_lengths s) \<le> unat (len f)")
  case True
  then have "packetHandler L a1 a2 f s = (Some IndexOutOfRange, s)"
    by (simp add: packetHandler_def)
  with True show ?thesis by (rule index_error)
next
  case False
  then have inb: "unat (len f) < length (packet_lengths s)" by simp
  obtain r s2 where gp: "get_payload f s1 = (r, s2)" by (cases "get_payload f s1")
  have ph: "packetHandler L a1 a2 f s =
      (case r of
         Inl e \<Rightarrow> (Some e, s2)
       | Inr payload \<Rightarrow>
          if Word_empty payload then (None, s2)
          else
            (case Word_symbols (memory f) payload of
               Inl e \<Rightarrow> (Some e, s2)
             | Inr sy \<Rightarrow>
                (None, s2\<lparr>payloaded_packets := payloaded_packets s2 + 1,
                   accepted_aut1 := accepted_aut1 s2 + (if L a1 sy then 1 else 0),
                   accepted_aut2 := accepted_aut2 s2 + (if L a2 sy then 1 else 0),
                   incons_packets := incons_packets s2 + (if L a1 sy \<noteq> L a2 sy then 1 else 0),
                   cout := cout s2 @ (if total_packets s2 mod 1000 = 0 then [Tick] else [])\<rparr>)))"
    using inb gp unfolding s1_def
    by (simp add: packetHandler_def Let_def split: sum.splits)
  show ?thesis
  proof (cases r)
    case (Inl e)
    with ph gp inb show ?thesis by (intro payload_error[of e]) simp_all
  next
    case (Inr w)
    show ?thesis
    proof (cases "Word_empty w")
      case True
      with Inr ph gp inb show ?thesis by (intro empty[of w]) simp_all
    next
      case False
      show ?thesis
      proof (cases "Word_symbols (memory f) w")
        case (Inl e)
        then have "e = ReadPastBuffer" by (rule Word_symbols_error)
        with Inl False Inr ph gp inb show ?thesis by (intro copy_error[of w]) simp_all
      next
        case sy: (Inr sy)
        with False Inr ph gp inb show ?thesis by (intro sampled[of w sy s2]) simp_all
      qed
    qed
  qed
qed

section \<open>The three counters of the network layer add up to the total\<close>

lemma unat_plus_one:
  fixes c :: size_t
  assumes "unat c + 1 < 2 ^ 64"
  shows "unat (c + 1) = unat c + 1"
  using assms unat_add_lem[of c 1] by simp

lemma packetHandler_l3:
  assumes "packetHandler L a1 a2 f s = (None, s')"
  shows "total_packets s' = total_packets s + 1 \<and>
    ((ipv4_packets s' = ipv4_packets s + 1 \<and> ipv6_packets s' = ipv6_packets s \<and>
      other_l3_packets s' = other_l3_packets s) \<or>
     (ipv4_packets s' = ipv4_packets s \<and> ipv6_packets s' = ipv6_packets s + 1 \<and>
      other_l3_packets s' = other_l3_packets s) \<or>
     (ipv4_packets s' = ipv4_packets s \<and> ipv6_packets s' = ipv6_packets s \<and>
      other_l3_packets s' = other_l3_packets s + 1))"
proof (cases rule: packetHandler_cases[where f=f and s=s and L=L and ?a1.0=a1 and ?a2.0=a2])
  case (empty w)
  from empty(4) assms have s': "s' = snd (get_payload f
      (s\<lparr>packet_lengths := (packet_lengths s)[unat (len f) := packet_lengths s ! unat (len f) + 1],
          total_packets := total_packets s + 1\<rparr>))"
    by simp
  show ?thesis
    unfolding s' using get_payload_l3[OF empty(2)] by (simp add: get_payload_keeps)
next
  case (sampled w sy s2)
  from sampled(6) assms have s': "s' = s2\<lparr>payloaded_packets := payloaded_packets s2 + 1,
            accepted_aut1 := accepted_aut1 s2 + (if L a1 sy then 1 else 0),
            accepted_aut2 := accepted_aut2 s2 + (if L a2 sy then 1 else 0),
            incons_packets := incons_packets s2 + (if L a1 sy \<noteq> L a2 sy then 1 else 0),
            cout := cout s2 @ (if total_packets s2 mod 1000 = 0 then [Tick] else [])\<rparr>"
    by simp
  show ?thesis
    unfolding s' sampled(5) using get_payload_l3[OF sampled(2)] by (simp add: get_payload_keeps)
qed (use assms in simp_all)

lemma pcap_loop_l3:
  assumes "pcap_loop (packetHandler L a1 a2) fs s = (None, s')"
  shows "total_packets s' = total_packets s + of_nat (length fs) \<and>
    ipv4_packets s' + ipv6_packets s' + other_l3_packets s' =
      ipv4_packets s + ipv6_packets s + other_l3_packets s + of_nat (length fs)"
  using assms
proof (induction fs arbitrary: s)
  case Nil
  then show ?case by simp
next
  case (Cons f fs)
  from Cons.prems obtain t where
    step: "packetHandler L a1 a2 f s = (None, t)" and
    rest: "pcap_loop (packetHandler L a1 a2) fs t = (None, s')"
    by (auto split: prod.splits option.splits)
  from packetHandler_l3[OF step] Cons.IH[OF rest] show ?case
    by auto
qed

lemma pcap_loop_l3_nat:
  assumes "pcap_loop (packetHandler L a1 a2) fs s = (None, s')"
    and "unat (total_packets s) + length fs < 2 ^ 64"
    and "unat (ipv4_packets s) + unat (ipv6_packets s) + unat (other_l3_packets s) + length fs < 2 ^ 64"
  shows "unat (total_packets s') = unat (total_packets s) + length fs \<and>
    unat (ipv4_packets s') + unat (ipv6_packets s') + unat (other_l3_packets s') =
      unat (ipv4_packets s) + unat (ipv6_packets s) + unat (other_l3_packets s) + length fs"
  using assms
proof (induction fs arbitrary: s)
  case Nil
  then show ?case by simp
next
  case (Cons f fs)
  from Cons.prems(1) obtain t where
    step: "packetHandler L a1 a2 f s = (None, t)" and
    rest: "pcap_loop (packetHandler L a1 a2) fs t = (None, s')"
    by (auto split: prod.splits option.splits)
  have b1: "unat (total_packets s) + 1 < 2 ^ 64" "unat (ipv4_packets s) + 1 < 2 ^ 64"
    "unat (ipv6_packets s) + 1 < 2 ^ 64" "unat (other_l3_packets s) + 1 < 2 ^ 64"
    using Cons.prems(2,3) by simp_all
  have t: "unat (total_packets t) = unat (total_packets s) + 1 \<and>
     unat (ipv4_packets t) + unat (ipv6_packets t) + unat (other_l3_packets t) =
      unat (ipv4_packets s) + unat (ipv6_packets s) + unat (other_l3_packets s) + 1"
    using packetHandler_l3[OF step] b1 by (auto simp: unat_plus_one)
  with Cons.prems(2,3) Cons.IH[OF rest] show ?case
    by simp
qed

lemmas handler_eval =
  packetHandler_def Word_symbols_def Word_empty_def starts_with_def init_globals_def frame_eval

text \<open>
  Claim C3. After every callback that returns, the counters of IPv4, IPv6 and other
  network layers add up to the counter of all frames. The run starts from the initial
  state (whatever \<^verbatim>\<open>main\<close> has printed before) and \<open>fs\<close> are the frames handled so far, so
  the statement covers every point between two callbacks. The sum is that of the program's
  \<^verbatim>\<open>size_t\<close> counters; as long as fewer than \<open>2 ^ 64\<close> frames were handled it is also the
  sum of the numbers they hold. The last part says that each callback that returns adds
  one to the total and to exactly one of the three counters.
\<close>

theorem l3_counters_sum_to_total:
  assumes "pcap_loop (packetHandler L aut1 aut2) fs (init_globals\<lparr>cout := c\<rparr>) = (None, s)"
  shows "ipv4_packets s + ipv6_packets s + other_l3_packets s = total_packets s \<and>
    (length fs < 2 ^ 64 \<longrightarrow>
       unat (ipv4_packets s) + unat (ipv6_packets s) + unat (other_l3_packets s) =
         unat (total_packets s) \<and> unat (total_packets s) = length fs) \<and>
    (\<forall>f t t'. packetHandler L aut1 aut2 f t = (None, t') \<longrightarrow>
       total_packets t' = total_packets t + 1 \<and>
       ((ipv4_packets t' = ipv4_packets t + 1 \<and> ipv6_packets t' = ipv6_packets t \<and>
         other_l3_packets t' = other_l3_packets t) \<or>
        (ipv4_packets t' = ipv4_packets t \<and> ipv6_packets t' = ipv6_packets t + 1 \<and>
         other_l3_packets t' = other_l3_packets t) \<or>
        (ipv4_packets t' = ipv4_packets t \<and> ipv6_packets t' = ipv6_packets t \<and>
         other_l3_packets t' = other_l3_packets t + 1)))"
proof (intro conjI impI allI)
  show "ipv4_packets s + ipv6_packets s + other_l3_packets s = total_packets s"
    using pcap_loop_l3[OF assms] by (simp add: init_globals_def)
next
  assume "length fs < 2 ^ 64"
  then show "unat (ipv4_packets s) + unat (ipv6_packets s) + unat (other_l3_packets s) =
      unat (total_packets s)" "unat (total_packets s) = length fs"
    using pcap_loop_l3_nat[OF assms] by (simp_all add: init_globals_def)
next
  fix f t t'
  assume h: "packetHandler L aut1 aut2 f t = (None, t')"
  from packetHandler_l3[OF h] show "total_packets t' = total_packets t + 1"
    by simp
  from packetHandler_l3[OF h] show
    "(ipv4_packets t' = ipv4_packets t + 1 \<and> ipv6_packets t' = ipv6_packets t \<and>
         other_l3_packets t' = other_l3_packets t) \<or>
        (ipv4_packets t' = ipv4_packets t \<and> ipv6_packets t' = ipv6_packets t + 1 \<and>
         other_l3_packets t' = other_l3_packets t) \<or>
        (ipv4_packets t' = ipv4_packets t \<and> ipv6_packets t' = ipv6_packets t \<and>
         other_l3_packets t' = other_l3_packets t + 1)"
    by simp
qed

theorem l3_counters_sum_to_total_witness:
  "fst (pcap_loop (packetHandler starts_with 0 1) [udp_frame, arp_frame]
      (init_globals\<lparr>cout := []\<rparr>)) = None \<and>
   ipv4_packets (snd (pcap_loop (packetHandler starts_with 0 1) [udp_frame, arp_frame]
      (init_globals\<lparr>cout := []\<rparr>))) = 1 \<and>
   ipv6_packets (snd (pcap_loop (packetHandler starts_with 0 1) [udp_frame, arp_frame]
      (init_globals\<lparr>cout := []\<rparr>))) = 0 \<and>
   other_l3_packets (snd (pcap_loop (packetHandler starts_with 0 1) [udp_frame, arp_frame]
      (init_globals\<lparr>cout := []\<rparr>))) = 1 \<and>
   total_packets (snd (pcap_loop (packetHandler starts_with 0 1) [udp_frame, arp_frame]
      (init_globals\<lparr>cout := []\<rparr>))) = 2 \<and>
   ipv4_packets (snd (pcap_loop (packetHandler starts_with 0 1) [udp_frame, arp_frame]
      (init_globals\<lparr>cout := []\<rparr>)))
   + ipv6_packets (snd (pcap_loop (packetHandler starts_with 0 1) [udp_frame, arp_frame]
      (init_globals\<lparr>cout := []\<rparr>)))
   + other_l3_packets (snd (pcap_loop (packetHandler starts_with 0 1) [udp_frame, arp_frame]
      (init_globals\<lparr>cout := []\<rparr>)))
   = total_packets (snd (pcap_loop (packetHandler starts_with 0 1) [udp_frame, arp_frame]
      (init_globals\<lparr>cout := []\<rparr>))) \<and>
   unat (total_packets (snd (pcap_loop (packetHandler starts_with 0 1) [udp_frame, arp_frame]
      (init_globals\<lparr>cout := []\<rparr>)))) = length [udp_frame, arp_frame]"
proof -
  define r where
    "r = pcap_loop (packetHandler starts_with 0 1) [udp_frame, arp_frame] (init_globals\<lparr>cout := []\<rparr>)"
  have ev: "fst r = None" "ipv4_packets (snd r) = 1" "ipv6_packets (snd r) = 0"
    "other_l3_packets (snd r) = 1" "total_packets (snd r) = 2"
    unfolding r_def by (simp_all add: handler_eval udp_frame_def arp_frame_def)
  then have run: "pcap_loop (packetHandler starts_with 0 1) [udp_frame, arp_frame]
      (init_globals\<lparr>cout := []\<rparr>) = (None, snd r)"
    unfolding r_def by (simp add: prod_eq_iff)
  have "length [udp_frame, arp_frame] < 2 ^ 64"
    by simp
  with l3_counters_sum_to_total [OF run] ev show ?thesis
    unfolding r_def by blast
qed

section \<open>IPv6 in IPv4: the inner next header is read and not decoded\<close>

text \<open>
  Claim C2 says that after the branch of protocol 41 the loop goes on with the next header
  of the inner IPv6 header. The branch reads that field into \<^verbatim>\<open>l4_proto\<close> and does not set
  \<^verbatim>\<open>processing\<close> again, unlike the branches of IP-in-IP and of the fragment header, so
  the loop ends there. For the frame Ethernet, IPv4 (protocol 41), IPv6 (next header UDP),
  UDP and four bytes, the payload starts at offset 74, where the UDP header starts, and the
  UDP counter stays at zero.
\<close>

theorem ip6_in_ip4_inner_header_not_decoded:
  "get_payload ip6_in_ip4_udp_frame init_globals =
     (Inr (RangeWord 74 86), init_globals\<lparr>ipv4_packets := 1, ip6_in_ip4_packets := 1\<rparr>) \<and>
   ip6_nxt (memory ip6_in_ip4_udp_frame) (sizeof_ether_header + sizeof_ip) = Inr IPPROTO_UDP \<and>
   udp_packets (snd (get_payload ip6_in_ip4_udp_frame init_globals)) = 0 \<and>
   sizeof_ether_header + sizeof_ip + sizeof_ip6_hdr = 74"
  by (simp add: frame_eval ip6_in_ip4_udp_frame_def init_globals_def)

section \<open>One level of IPv4 in IPv4 that carries UDP\<close>

text \<open>
  Claim C6. Let the frame be untagged (its ethertype is that of IPv4), let the protocol of
  its IPv4 header be IP-in-IP and the protocol of the inner IPv4 header, 20 bytes further,
  be UDP. Then \<^verbatim>\<open>get_payload\<close> counts one IPv4 frame, one IP-in-IP layer and one UDP layer,
  and returns the bytes from offset 62, past the Ethernet header (14 bytes), the two IPv4
  headers (20 bytes each) and the UDP header (8 bytes), up to the declared length (the
  payload is empty when the declared length is below 62). In a capture that holds this
  frame only, with a declared length that the histogram can take, the two counters are 1
  after the run.
\<close>

theorem ipip_udp_frame_payload:
  assumes "eth_ether_type (memory f) = Inr ETHERTYPE_IP"
    and "ip_p (memory f) sizeof_ether_header = Inr IPPROTO_IPIP"
    and "ip_p (memory f) (sizeof_ether_header + sizeof_ip) = Inr IPPROTO_UDP"
  shows "get_payload f init_globals =
      (Inr (RangeWord (sizeof_ether_header + sizeof_ip + sizeof_ip + sizeof_udphdr)
              (max (unat (len f)) (sizeof_ether_header + sizeof_ip + sizeof_ip + sizeof_udphdr))),
       init_globals\<lparr>ipv4_packets := 1, ipip_packets := 1, udp_packets := 1\<rparr>) \<and>
    sizeof_ether_header + sizeof_ip + sizeof_ip + sizeof_udphdr = 62 \<and>
    (62 \<le> unat (len f) \<longrightarrow> fst (get_payload f init_globals) = Inr (RangeWord 62 (unat (len f)))) \<and>
    (unat (len f) < 2048 \<longrightarrow>
       ipip_packets (snd (pcap_loop (packetHandler L aut1 aut2) [f] init_globals)) = 1 \<and>
       udp_packets (snd (pcap_loop (packetHandler L aut1 aut2) [f] init_globals)) = 1)"
proof -
  have gp: "get_payload f s =
      (Inr (RangeWord 62 (max (unat (len f)) 62)),
       s\<lparr>ipv4_packets := ipv4_packets s + 1, ipip_packets := ipip_packets s + 1,
          udp_packets := udp_packets s + 1\<rparr>)" for s
    using assms
    by (simp add: get_payload_def l4_loop_IPIP l4_loop_UDP payload_slice_def ETHERTYPE_defs
        sizeof_defs)
  have sz: "sizeof_ether_header + sizeof_ip + sizeof_ip + sizeof_udphdr = 62"
    by (simp add: sizeof_defs)
  have run: "ipip_packets (snd (pcap_loop (packetHandler L aut1 aut2) [f] init_globals)) = 1 \<and>
       udp_packets (snd (pcap_loop (packetHandler L aut1 aut2) [f] init_globals)) = 1"
    if "unat (len f) < 2048"
    using that
    by (simp add: packetHandler_def gp Let_def init_globals_def split: sum.splits)
  show ?thesis
    using gp[of init_globals] run by (simp add: sz init_globals_def max_def)
qed

theorem ipip_udp_frame_payload_witness:
  "eth_ether_type (memory ipip_udp_frame) = Inr ETHERTYPE_IP \<and>
   ip_p (memory ipip_udp_frame) sizeof_ether_header = Inr IPPROTO_IPIP \<and>
   ip_p (memory ipip_udp_frame) (sizeof_ether_header + sizeof_ip) = Inr IPPROTO_UDP \<and>
   unat (len ipip_udp_frame) = 66 \<and>
   fst (get_payload ipip_udp_frame init_globals) = Inr (RangeWord 62 66) \<and>
   ipip_packets (snd (pcap_loop (packetHandler starts_with 0 1) [ipip_udp_frame] init_globals)) = 1 \<and>
   udp_packets (snd (pcap_loop (packetHandler starts_with 0 1) [ipip_udp_frame] init_globals)) = 1"
proof -
  have h: "eth_ether_type (memory ipip_udp_frame) = Inr ETHERTYPE_IP"
    "ip_p (memory ipip_udp_frame) sizeof_ether_header = Inr IPPROTO_IPIP"
    "ip_p (memory ipip_udp_frame) (sizeof_ether_header + sizeof_ip) = Inr IPPROTO_UDP"
    by (simp_all add: frame_eval ipip_udp_frame_def)
  have l: "unat (len ipip_udp_frame) = 66"
    by (simp add: ipip_udp_frame_def)
  from ipip_udp_frame_payload [OF h, of starts_with 0 1] h l show ?thesis
    by simp
qed

section \<open>Frames with and without payload\<close>

lemma packetHandler_payload_count:
  assumes "packetHandler L a1 a2 f s = (None, s')"
  shows
   "(has_payload f \<and> \<not> empty_payload f \<and> \<not> truncated f \<and>
       payloaded_packets s' = payloaded_packets s + 1 \<and>
       other_l3_packets s' = other_l3_packets s \<and> other_l4_packets s' = other_l4_packets s \<and>
       gre_packets s' = gre_packets s \<and> pim_packets s' = pim_packets s) \<or>
    (\<not> has_payload f \<and> empty_payload f \<and> truncated f \<and>
       payloaded_packets s' = payloaded_packets s \<and>
       other_l3_packets s' = other_l3_packets s \<and> other_l4_packets s' = other_l4_packets s \<and>
       gre_packets s' = gre_packets s \<and> pim_packets s' = pim_packets s) \<or>
    (\<not> has_payload f \<and> empty_payload f \<and> \<not> truncated f \<and>
       payloaded_packets s' = payloaded_packets s \<and>
       ((other_l3_packets s' = other_l3_packets s + 1 \<and> other_l4_packets s' = other_l4_packets s \<and>
         gre_packets s' = gre_packets s \<and> pim_packets s' = pim_packets s) \<or>
        (other_l3_packets s' = other_l3_packets s \<and> other_l4_packets s' = other_l4_packets s + 1 \<and>
         gre_packets s' = gre_packets s \<and> pim_packets s' = pim_packets s) \<or>
        (other_l3_packets s' = other_l3_packets s \<and> other_l4_packets s' = other_l4_packets s \<and>
         gre_packets s' = gre_packets s + 1 \<and> pim_packets s' = pim_packets s) \<or>
        (other_l3_packets s' = other_l3_packets s \<and> other_l4_packets s' = other_l4_packets s \<and>
         gre_packets s' = gre_packets s \<and> pim_packets s' = pim_packets s + 1)))"
proof (cases rule: packetHandler_cases[where f=f and s=s and L=L and ?a1.0=a1 and ?a2.0=a2])
  case (empty w)
  define s1 where "s1 = s\<lparr>packet_lengths :=
      (packet_lengths s)[unat (len f) := packet_lengths s ! unat (len f) + 1],
      total_packets := total_packets s + 1\<rparr>"
  from empty(4) assms have s': "s' = snd (get_payload f s1)"
    by (simp add: s1_def)
  from empty(2) have gp: "fst (get_payload f s1) = Inr w"
    by (simp add: s1_def)
  then have po: "payload_of f = Inr w"
    by (simp add: get_payload_fst)
  have keep: "payloaded_packets s' = payloaded_packets s"
    by (simp add: s' get_payload_keeps s1_def)
  have s1: "other_l3_packets s1 = other_l3_packets s" "other_l4_packets s1 = other_l4_packets s"
    "gre_packets s1 = gre_packets s" "pim_packets s1 = pim_packets s"
    by (simp_all add: s1_def)
  show ?thesis
  proof (cases w)
    case EmptyWord
    with po empty(3) have cls: "\<not> has_payload f" "empty_payload f" "\<not> truncated f"
      by (simp_all add: has_payload_def empty_payload_def truncated_def)
    from get_payload_terminal[of f s1] gp EmptyWord show ?thesis
      by (simp add: cls keep s' [symmetric] s1)
  next
    case (RangeWord b e)
    with gp have "e = max (unat (len f)) b"
      by (auto dest: get_payload_range)
    with po empty(3) RangeWord have cls: "\<not> has_payload f" "empty_payload f" "truncated f"
      by (simp_all add: has_payload_def empty_payload_def truncated_def Word_empty_def)
    from get_payload_terminal[of f s1] gp RangeWord show ?thesis
      by (simp add: cls keep s' [symmetric] s1)
  qed
next
  case (sampled w sy s2)
  define s1 where "s1 = s\<lparr>packet_lengths :=
      (packet_lengths s)[unat (len f) := packet_lengths s ! unat (len f) + 1],
      total_packets := total_packets s + 1\<rparr>"
  from sampled(2) have gp: "fst (get_payload f s1) = Inr w"
    by (simp add: s1_def)
  then have po: "payload_of f = Inr w"
    by (simp add: get_payload_fst)
  from sampled(3) have ne: "w \<noteq> EmptyWord"
    by (auto simp: Word_empty_def)
  from ne obtain b e where w: "w = RangeWord b e"
    by (cases w) auto
  with gp have "e = max (unat (len f)) b"
    by (auto dest: get_payload_range)
  with po sampled(3) w have cls: "has_payload f" "\<not> empty_payload f" "\<not> truncated f"
    by (simp_all add: has_payload_def empty_payload_def truncated_def Word_empty_def)
  have s2: "s2 = snd (get_payload f s1)"
    using sampled(5) by (simp add: s1_def)
  have s1: "other_l3_packets s1 = other_l3_packets s" "other_l4_packets s1 = other_l4_packets s"
    "gre_packets s1 = gre_packets s" "pim_packets s1 = pim_packets s"
    "payloaded_packets s1 = payloaded_packets s"
    by (simp_all add: s1_def)
  from get_payload_terminal[of f s1] gp ne
  have four: "other_l3_packets s2 = other_l3_packets s" "other_l4_packets s2 = other_l4_packets s"
    "gre_packets s2 = gre_packets s" "pim_packets s2 = pim_packets s"
    by (simp_all add: s2 s1)
  have pl: "payloaded_packets s2 = payloaded_packets s"
    by (simp add: s2 get_payload_keeps s1)
  from sampled(6) assms have s': "s' = s2\<lparr>payloaded_packets := payloaded_packets s2 + 1,
            accepted_aut1 := accepted_aut1 s2 + (if L a1 sy then 1 else 0),
            accepted_aut2 := accepted_aut2 s2 + (if L a2 sy then 1 else 0),
            incons_packets := incons_packets s2 + (if L a1 sy \<noteq> L a2 sy then 1 else 0),
            cout := cout s2 @ (if total_packets s2 mod 1000 = 0 then [Tick] else [])\<rparr>"
    by simp
  show ?thesis
    by (simp add: s' cls four pl)
qed (use assms in simp_all)

lemma packetHandler_payload_sum:
  assumes "packetHandler L a1 a2 f s = (None, s')"
  shows "(has_payload f \<longleftrightarrow> \<not> empty_payload f) \<and> (truncated f \<longrightarrow> empty_payload f) \<and>
    payloaded_packets s' = payloaded_packets s + (if has_payload f then 1 else 0) \<and>
    other_l3_packets s' + other_l4_packets s' + gre_packets s' + pim_packets s'
      + (if truncated f then 1 else 0) =
    other_l3_packets s + other_l4_packets s + gre_packets s + pim_packets s
      + (if empty_payload f then 1 else 0)"
  using packetHandler_payload_count[OF assms] by (elim disjE conjE) simp_all

lemma packetHandler_payload_sum_nat:
  assumes "packetHandler L a1 a2 f s = (None, s')"
    and "unat (payloaded_packets s) + 1 < 2 ^ 64"
    and "unat (other_l3_packets s) + unat (other_l4_packets s) + unat (gre_packets s)
      + unat (pim_packets s) + 1 < 2 ^ 64"
  shows "unat (payloaded_packets s') = unat (payloaded_packets s) + (if has_payload f then 1 else 0) \<and>
    unat (other_l3_packets s') + unat (other_l4_packets s') + unat (gre_packets s')
      + unat (pim_packets s') + (if truncated f then 1 else 0) =
    unat (other_l3_packets s) + unat (other_l4_packets s) + unat (gre_packets s)
      + unat (pim_packets s) + (if empty_payload f then 1 else 0)"
proof -
  have b: "unat (other_l3_packets s) + 1 < 2 ^ 64" "unat (other_l4_packets s) + 1 < 2 ^ 64"
    "unat (gre_packets s) + 1 < 2 ^ 64" "unat (pim_packets s) + 1 < 2 ^ 64"
    using assms(3) by simp_all
  have u: "unat (payloaded_packets s + 1) = unat (payloaded_packets s) + 1"
    "unat (other_l3_packets s + 1) = unat (other_l3_packets s) + 1"
    "unat (other_l4_packets s + 1) = unat (other_l4_packets s) + 1"
    "unat (gre_packets s + 1) = unat (gre_packets s) + 1"
    "unat (pim_packets s + 1) = unat (pim_packets s) + 1"
    using b assms(2) by (simp_all only: unat_plus_one)
  from packetHandler_payload_count[OF assms(1)] show ?thesis
    by (elim disjE conjE) (simp_all add: u)
qed

lemma pcap_loop_payload_counts:
  assumes "pcap_loop (packetHandler L a1 a2) fs s = (None, s')"
  shows "length (filter has_payload fs) + length (filter empty_payload fs) = length fs \<and>
    length (filter truncated fs) \<le> length (filter empty_payload fs) \<and>
    payloaded_packets s' = payloaded_packets s + of_nat (length (filter has_payload fs)) \<and>
    other_l3_packets s' + other_l4_packets s' + gre_packets s' + pim_packets s'
      + of_nat (length (filter truncated fs)) =
    other_l3_packets s + other_l4_packets s + gre_packets s + pim_packets s
      + of_nat (length (filter empty_payload fs))"
  using assms
proof (induction fs arbitrary: s)
  case Nil
  then show ?case by simp
next
  case (Cons f fs)
  from Cons.prems obtain t where
    step: "packetHandler L a1 a2 f s = (None, t)" and
    rest: "pcap_loop (packetHandler L a1 a2) fs t = (None, s')"
    by (auto split: prod.splits option.splits)
  note a = packetHandler_payload_sum[OF step] and b = Cons.IH[OF rest]
  have 1: "length (filter has_payload (f # fs)) + length (filter empty_payload (f # fs))
      = length (f # fs)"
    using a b by simp
  have 2: "length (filter truncated (f # fs)) \<le> length (filter empty_payload (f # fs))"
    using a b by simp
  have 3: "payloaded_packets s' =
      payloaded_packets s + of_nat (length (filter has_payload (f # fs)))"
    using a b by simp
  have "other_l3_packets s' + other_l4_packets s' + gre_packets s' + pim_packets s'
      + of_nat (length (filter truncated fs)) + (if truncated f then 1 else 0) =
    other_l3_packets t + other_l4_packets t + gre_packets t + pim_packets t
      + (if truncated f then 1 else 0) + of_nat (length (filter empty_payload fs))"
    using b by simp
  also have "\<dots> = other_l3_packets s + other_l4_packets s + gre_packets s + pim_packets s
      + (if empty_payload f then 1 else 0) + of_nat (length (filter empty_payload fs))"
    using a by simp
  finally have 4: "other_l3_packets s' + other_l4_packets s' + gre_packets s' + pim_packets s'
      + of_nat (length (filter truncated (f # fs))) =
    other_l3_packets s + other_l4_packets s + gre_packets s + pim_packets s
      + of_nat (length (filter empty_payload (f # fs)))"
    by (cases "truncated f"; cases "empty_payload f"; simp add: ac_simps)
  from 1 2 3 4 show ?case by blast
qed

lemma pcap_loop_payload_counts_nat:
  assumes "pcap_loop (packetHandler L a1 a2) fs s = (None, s')"
    and "unat (payloaded_packets s) + length fs < 2 ^ 64"
    and "unat (other_l3_packets s) + unat (other_l4_packets s) + unat (gre_packets s)
      + unat (pim_packets s) + length fs < 2 ^ 64"
  shows "unat (payloaded_packets s') =
      unat (payloaded_packets s) + length (filter has_payload fs) \<and>
    unat (other_l3_packets s') + unat (other_l4_packets s') + unat (gre_packets s')
      + unat (pim_packets s') + length (filter truncated fs) =
    unat (other_l3_packets s) + unat (other_l4_packets s) + unat (gre_packets s)
      + unat (pim_packets s) + length (filter empty_payload fs)"
  using assms
proof (induction fs arbitrary: s)
  case Nil
  then show ?case by simp
next
  case (Cons f fs)
  from Cons.prems(1) obtain t where
    step: "packetHandler L a1 a2 f s = (None, t)" and
    rest: "pcap_loop (packetHandler L a1 a2) fs t = (None, s')"
    by (auto split: prod.splits option.splits)
  have b1: "unat (payloaded_packets s) + 1 < 2 ^ 64"
    "unat (other_l3_packets s) + unat (other_l4_packets s) + unat (gre_packets s)
      + unat (pim_packets s) + 1 < 2 ^ 64"
    using Cons.prems(2,3) by simp_all
  note a = packetHandler_payload_sum_nat[OF step b1]
  have e: "(if empty_payload f then 1 else 0) \<le> (1::nat)"
      "(if has_payload f then 1 else 0) \<le> (1::nat)"
    by simp_all
  have b2: "unat (payloaded_packets t) + length fs < 2 ^ 64"
    "unat (other_l3_packets t) + unat (other_l4_packets t) + unat (gre_packets t)
      + unat (pim_packets t) + length fs < 2 ^ 64"
    using a e Cons.prems(2,3) by (simp_all split: if_splits)
  note b = Cons.IH[OF rest b2]
  have 1: "unat (payloaded_packets s') =
      unat (payloaded_packets s) + length (filter has_payload (f # fs))"
    using a b by simp
  have "unat (other_l3_packets s') + unat (other_l4_packets s') + unat (gre_packets s')
      + unat (pim_packets s') + length (filter truncated fs) + (if truncated f then 1 else 0) =
    unat (other_l3_packets t) + unat (other_l4_packets t) + unat (gre_packets t)
      + unat (pim_packets t) + (if truncated f then 1 else 0) + length (filter empty_payload fs)"
    using b by simp
  also have "\<dots> = unat (other_l3_packets s) + unat (other_l4_packets s) + unat (gre_packets s)
      + unat (pim_packets s) + (if empty_payload f then 1 else 0)
      + length (filter empty_payload fs)"
    using a by simp
  finally have 2: "unat (other_l3_packets s') + unat (other_l4_packets s') + unat (gre_packets s')
      + unat (pim_packets s') + length (filter truncated (f # fs)) =
    unat (other_l3_packets s) + unat (other_l4_packets s) + unat (gre_packets s)
      + unat (pim_packets s) + length (filter empty_payload (f # fs))"
    by (simp split: if_splits)
  from 1 2 show ?case by blast
qed

text \<open>
  Claim C5. In a run that handles the frames \<open>fs\<close>, the counter of all frames is the counter
  of frames with payload plus the number of frames for which \<^verbatim>\<open>get_payload\<close> returned an
  empty payload, and that number is the sum of the counters of other network layers, other
  transport layers, GRE and PIM plus the number of truncated frames (the frames whose
  declared length does not exceed the offset that the headers reach). The equations hold
  between the \<^verbatim>\<open>size_t\<close> counters, and between the numbers they hold as long as fewer than
  \<open>2 ^ 64\<close> frames were handled.
\<close>

theorem frames_split_by_payload:
  assumes "pcap_loop (packetHandler L aut1 aut2) fs (init_globals\<lparr>cout := c\<rparr>) = (None, s)"
  shows "total_packets s = payloaded_packets s + of_nat (length (filter empty_payload fs)) \<and>
    of_nat (length (filter empty_payload fs)) =
      other_l3_packets s + other_l4_packets s + gre_packets s + pim_packets s
        + of_nat (length (filter truncated fs)) \<and>
    (length fs < 2 ^ 64 \<longrightarrow>
       unat (total_packets s) = unat (payloaded_packets s) + length (filter empty_payload fs) \<and>
       length (filter empty_payload fs) =
         unat (other_l3_packets s) + unat (other_l4_packets s) + unat (gre_packets s)
           + unat (pim_packets s) + length (filter truncated fs))"
proof -
  note w = pcap_loop_payload_counts[OF assms]
  from w have split: "length fs = length (filter has_payload fs) + length (filter empty_payload fs)"
    by simp
  have "total_packets s = of_nat (length fs)"
    using pcap_loop_l3[OF assms] by (simp add: init_globals_def)
  also have "\<dots> = of_nat (length (filter has_payload fs)) + of_nat (length (filter empty_payload fs))"
    by (subst split) simp
  also have "of_nat (length (filter has_payload fs)) = payloaded_packets s"
    using w by (simp add: init_globals_def)
  finally have 1: "total_packets s =
      payloaded_packets s + of_nat (length (filter empty_payload fs))" .
  have 2: "of_nat (length (filter empty_payload fs)) =
      other_l3_packets s + other_l4_packets s + gre_packets s + pim_packets s
        + of_nat (length (filter truncated fs))"
    using w by (simp add: init_globals_def)
  have 3: "unat (total_packets s) = unat (payloaded_packets s) + length (filter empty_payload fs) \<and>
       length (filter empty_payload fs) =
         unat (other_l3_packets s) + unat (other_l4_packets s) + unat (gre_packets s)
           + unat (pim_packets s) + length (filter truncated fs)"
    if "length fs < 2 ^ 64"
  proof -
    from that have "unat (total_packets s) = length fs"
      using pcap_loop_l3_nat[OF assms] by (simp add: init_globals_def)
    moreover from that have "unat (payloaded_packets s) = length (filter has_payload fs) \<and>
       unat (other_l3_packets s) + unat (other_l4_packets s) + unat (gre_packets s)
           + unat (pim_packets s) + length (filter truncated fs) = length (filter empty_payload fs)"
      using pcap_loop_payload_counts_nat[OF assms] by (simp add: init_globals_def)
    ultimately show ?thesis
      using split by simp
  qed
  from 1 2 3 show ?thesis by blast
qed

theorem frames_split_by_payload_witness:
  "fst (pcap_loop (packetHandler starts_with 0 1) [udp_frame, arp_frame, udp_header_only_frame]
      (init_globals\<lparr>cout := []\<rparr>)) = None \<and>
   filter empty_payload [udp_frame, arp_frame, udp_header_only_frame] =
     [arp_frame, udp_header_only_frame] \<and>
   filter truncated [udp_frame, arp_frame, udp_header_only_frame] = [udp_header_only_frame] \<and>
   total_packets (snd (pcap_loop (packetHandler starts_with 0 1)
      [udp_frame, arp_frame, udp_header_only_frame] (init_globals\<lparr>cout := []\<rparr>))) = 3 \<and>
   payloaded_packets (snd (pcap_loop (packetHandler starts_with 0 1)
      [udp_frame, arp_frame, udp_header_only_frame] (init_globals\<lparr>cout := []\<rparr>))) = 1 \<and>
   other_l3_packets (snd (pcap_loop (packetHandler starts_with 0 1)
      [udp_frame, arp_frame, udp_header_only_frame] (init_globals\<lparr>cout := []\<rparr>))) = 1 \<and>
   total_packets (snd (pcap_loop (packetHandler starts_with 0 1)
      [udp_frame, arp_frame, udp_header_only_frame] (init_globals\<lparr>cout := []\<rparr>))) =
   payloaded_packets (snd (pcap_loop (packetHandler starts_with 0 1)
      [udp_frame, arp_frame, udp_header_only_frame] (init_globals\<lparr>cout := []\<rparr>)))
   + of_nat (length (filter empty_payload [udp_frame, arp_frame, udp_header_only_frame]))"
proof -
  define r where "r = pcap_loop (packetHandler starts_with 0 1)
      [udp_frame, arp_frame, udp_header_only_frame] (init_globals\<lparr>cout := []\<rparr>)"
  have ev: "fst r = None" "total_packets (snd r) = 3" "payloaded_packets (snd r) = 1"
    "other_l3_packets (snd r) = 1"
    unfolding r_def
    by (simp_all add: handler_eval udp_frame_def arp_frame_def udp_header_only_frame_def)
  have cls: "\<not> empty_payload udp_frame" "empty_payload arp_frame"
    "empty_payload udp_header_only_frame" "\<not> truncated udp_frame" "\<not> truncated arp_frame"
    "truncated udp_header_only_frame"
    by (simp_all add: empty_payload_def truncated_def payload_of_def handler_eval udp_frame_def
        arp_frame_def udp_header_only_frame_def)
  from ev have run: "pcap_loop (packetHandler starts_with 0 1)
      [udp_frame, arp_frame, udp_header_only_frame] (init_globals\<lparr>cout := []\<rparr>) = (None, snd r)"
    unfolding r_def by (simp add: prod_eq_iff)
  from frames_split_by_payload [OF run] ev cls show ?thesis
    unfolding r_def by simp
qed

section \<open>Exchanging the two automata\<close>

lemma packetHandler_unfold:
  "packetHandler L a1 a2 f s =
    (if length (packet_lengths s) \<le> unat (len f) then (Some IndexOutOfRange, s)
     else
      (let s1 = s\<lparr>packet_lengths :=
                   (packet_lengths s)[unat (len f) := packet_lengths s ! unat (len f) + 1],
                 total_packets := total_packets s + 1\<rparr>;
           s2 = snd (get_payload f s1)
       in
        case payload_of f of
          Inl e \<Rightarrow> (Some e, s2)
        | Inr w \<Rightarrow>
            if Word_empty w then (None, s2)
            else
             (case Word_symbols (memory f) w of
                Inl e \<Rightarrow> (Some e, s2)
              | Inr sy \<Rightarrow>
                 (None, s2\<lparr>payloaded_packets := payloaded_packets s2 + 1,
                    accepted_aut1 := accepted_aut1 s2 + (if L a1 sy then 1 else 0),
                    accepted_aut2 := accepted_aut2 s2 + (if L a2 sy then 1 else 0),
                    incons_packets := incons_packets s2 + (if L a1 sy \<noteq> L a2 sy then 1 else 0),
                    cout := cout s2 @ (if total_packets s2 mod 1000 = 0 then [Tick] else [])\<rparr>))))"
proof -
  obtain r s2 where gp: "get_payload f (s\<lparr>packet_lengths :=
      (packet_lengths s)[unat (len f) := packet_lengths s ! unat (len f) + 1],
      total_packets := total_packets s + 1\<rparr>) = (r, s2)"
    by (cases "get_payload f (s\<lparr>packet_lengths :=
      (packet_lengths s)[unat (len f) := packet_lengths s ! unat (len f) + 1],
      total_packets := total_packets s + 1\<rparr>)")
  then have r: "payload_of f = r"
    using get_payload_fst[of f "s\<lparr>packet_lengths :=
      (packet_lengths s)[unat (len f) := packet_lengths s ! unat (len f) + 1],
      total_packets := total_packets s + 1\<rparr>"] by simp
  show ?thesis
    using gp by (simp add: packetHandler_def Let_def r split: sum.splits)
qed

lemma swap_accepted_simps:
  "total_packets (swap_accepted s) = total_packets s"
  "payloaded_packets (swap_accepted s) = payloaded_packets s"
  "incons_packets (swap_accepted s) = incons_packets s"
  "packet_lengths (swap_accepted s) = packet_lengths s"
  "cout (swap_accepted s) = cout s"
  "accepted_aut1 (swap_accepted s) = accepted_aut2 s"
  "accepted_aut2 (swap_accepted s) = accepted_aut1 s"
  by (simp_all add: swap_accepted_def)

lemma packetHandler_swap:
  "packetHandler L a2 a1 f (swap_accepted s) =
     (fst (packetHandler L a1 a2 f s), swap_accepted (snd (packetHandler L a1 a2 f s)))"
proof -
  define s1 where "s1 = s\<lparr>packet_lengths :=
      (packet_lengths s)[unat (len f) := packet_lengths s ! unat (len f) + 1],
      total_packets := total_packets s + 1\<rparr>"
  have 1: "(swap_accepted s)\<lparr>packet_lengths :=
      (packet_lengths s)[unat (len f) := packet_lengths s ! unat (len f) + 1],
      total_packets := total_packets s + 1\<rparr> = swap_accepted s1"
    by (simp add: swap_accepted_def s1_def)
  have 2: "snd (get_payload f (swap_accepted s1)) = swap_accepted (snd (get_payload f s1))"
    by (simp add: get_payload_swap)
  show ?thesis
    unfolding packetHandler_unfold[of L a2 a1] packetHandler_unfold[of L a1 a2]
    by (simp add: swap_accepted_simps 1 2 Let_def s1_def[symmetric] split: sum.splits)
      (auto simp: swap_accepted_def)
qed

lemma pcap_loop_swap:
  "pcap_loop (packetHandler L a2 a1) fs (swap_accepted s) =
     (fst (pcap_loop (packetHandler L a1 a2) fs s),
      swap_accepted (snd (pcap_loop (packetHandler L a1 a2) fs s)))"
proof (induction fs arbitrary: s)
  case Nil
  then show ?case by simp
next
  case (Cons f fs)
  show ?case
    by (cases "packetHandler L a1 a2 f s")
      (simp add: packetHandler_swap Cons.IH split: option.splits)
qed

lemma disagreeing_sym: "disagreeing L a2 a1 f = disagreeing L a1 a2 f"
  by (auto simp: disagreeing_def split: sum.splits)

lemma packetHandler_incons:
  assumes "packetHandler L a1 a2 f s = (None, s')"
  shows "incons_packets s' = incons_packets s + (if disagreeing L a1 a2 f then 1 else 0)"
  using assms unfolding packetHandler_unfold
  by (auto simp: Let_def disagreeing_def get_payload_keeps split: if_splits sum.splits)

lemma pcap_loop_incons:
  assumes "pcap_loop (packetHandler L a1 a2) fs s = (None, s')"
  shows "incons_packets s' = incons_packets s + of_nat (length (filter (disagreeing L a1 a2) fs))"
  using assms
proof (induction fs arbitrary: s)
  case Nil
  then show ?case by simp
next
  case (Cons f fs)
  from Cons.prems obtain t where
    step: "packetHandler L a1 a2 f s = (None, t)" and
    rest: "pcap_loop (packetHandler L a1 a2) fs t = (None, s')"
    by (auto split: prod.splits option.splits)
  from packetHandler_incons[OF step] Cons.IH[OF rest] show ?case
    by simp
qed

text \<open>
  Claim C7. Run the capture \<open>fs\<close> with the automata \<open>aut1\<close> and \<open>aut2\<close>, and again with the
  two exchanged. The two runs end in the same way, and the final state of the second is
  that of the first with the two acceptance counters exchanged and everything else equal:
  in particular the counter of inconsistent packets is the same. The disagreeing frames
  are the same frames, and in a run that handles all frames the counter of inconsistent
  packets is their number.
\<close>

theorem exchanging_the_automata:
  fixes L :: "'nfa \<Rightarrow> byte list \<Rightarrow> bool" and aut1 aut2 :: 'nfa
    and fs :: "frame list" and c :: "event list"
  defines "r \<equiv> pcap_loop (packetHandler L aut1 aut2) fs (init_globals\<lparr>cout := c\<rparr>)"
    and "r' \<equiv> pcap_loop (packetHandler L aut2 aut1) fs (init_globals\<lparr>cout := c\<rparr>)"
  shows "fst r' = fst r \<and> snd r' = swap_accepted (snd r) \<and>
    incons_packets (snd r') = incons_packets (snd r) \<and>
    accepted_aut1 (snd r') = accepted_aut2 (snd r) \<and>
    accepted_aut2 (snd r') = accepted_aut1 (snd r) \<and>
    filter (disagreeing L aut2 aut1) fs = filter (disagreeing L aut1 aut2) fs \<and>
    (fst r = None \<longrightarrow>
       incons_packets (snd r) = of_nat (length (filter (disagreeing L aut1 aut2) fs)))"
proof -
  have "swap_accepted (init_globals\<lparr>cout := c\<rparr>) = init_globals\<lparr>cout := c\<rparr>"
    by (simp add: swap_accepted_def init_globals_def)
  with pcap_loop_swap[of L aut2 aut1 fs "init_globals\<lparr>cout := c\<rparr>"]
  have sw: "r' = (fst r, swap_accepted (snd r))"
    by (simp add: r_def r'_def)
  have dis: "filter (disagreeing L aut2 aut1) fs = filter (disagreeing L aut1 aut2) fs"
    by (rule filter_cong[OF refl]) (rule disagreeing_sym)
  have cnt: "incons_packets (snd r) = of_nat (length (filter (disagreeing L aut1 aut2) fs))"
    if "fst r = None"
  proof -
    from that have "pcap_loop (packetHandler L aut1 aut2) fs (init_globals\<lparr>cout := c\<rparr>)
        = (None, snd r)"
      by (simp add: r_def prod_eq_iff)
    from pcap_loop_incons[OF this] show ?thesis
      by (simp add: init_globals_def)
  qed
  from sw dis cnt show ?thesis
    by (simp add: swap_accepted_simps)
qed

theorem exchanging_the_automata_witness:
  "fst (pcap_loop (packetHandler starts_with 0 1) [udp_frame, arp_frame]
      (init_globals\<lparr>cout := []\<rparr>)) = None \<and>
   fst (pcap_loop (packetHandler starts_with 1 0) [udp_frame, arp_frame]
      (init_globals\<lparr>cout := []\<rparr>)) = None \<and>
   filter (disagreeing starts_with 0 1) [udp_frame, arp_frame] = [udp_frame] \<and>
   filter (disagreeing starts_with 1 0) [udp_frame, arp_frame] = [udp_frame] \<and>
   incons_packets (snd (pcap_loop (packetHandler starts_with 0 1) [udp_frame, arp_frame]
      (init_globals\<lparr>cout := []\<rparr>))) = 1 \<and>
   incons_packets (snd (pcap_loop (packetHandler starts_with 1 0) [udp_frame, arp_frame]
      (init_globals\<lparr>cout := []\<rparr>))) = 1 \<and>
   accepted_aut1 (snd (pcap_loop (packetHandler starts_with 0 1) [udp_frame, arp_frame]
      (init_globals\<lparr>cout := []\<rparr>))) = 1 \<and>
   accepted_aut2 (snd (pcap_loop (packetHandler starts_with 0 1) [udp_frame, arp_frame]
      (init_globals\<lparr>cout := []\<rparr>))) = 0 \<and>
   accepted_aut1 (snd (pcap_loop (packetHandler starts_with 1 0) [udp_frame, arp_frame]
      (init_globals\<lparr>cout := []\<rparr>))) = 0 \<and>
   accepted_aut2 (snd (pcap_loop (packetHandler starts_with 1 0) [udp_frame, arp_frame]
      (init_globals\<lparr>cout := []\<rparr>))) = 1"
proof -
  define r where "r = pcap_loop (packetHandler starts_with (0::byte) 1) [udp_frame, arp_frame]
      (init_globals\<lparr>cout := []\<rparr>)"
  define r' where "r' = pcap_loop (packetHandler starts_with (1::byte) 0) [udp_frame, arp_frame]
      (init_globals\<lparr>cout := []\<rparr>)"
  have ev: "fst r = None" "incons_packets (snd r) = 1" "accepted_aut1 (snd r) = 1"
    "accepted_aut2 (snd r) = 0"
    unfolding r_def by (simp_all add: handler_eval udp_frame_def arp_frame_def)
  have dis: "disagreeing starts_with 0 1 udp_frame" "\<not> disagreeing starts_with 0 1 arp_frame"
    by (simp_all add: disagreeing_def payload_of_def handler_eval udp_frame_def arp_frame_def)
  note sym = exchanging_the_automata [of starts_with 0 1 "[udp_frame, arp_frame]" "[]",
      folded r_def r'_def]
  from sym ev dis have "fst r' = None" "incons_packets (snd r') = 1"
    "accepted_aut1 (snd r') = 0" "accepted_aut2 (snd r') = 1"
    "filter (disagreeing starts_with 1 0) [udp_frame, arp_frame] = [udp_frame]"
    "filter (disagreeing starts_with 0 1) [udp_frame, arp_frame] = [udp_frame]"
    by simp_all
  with ev show ?thesis
    unfolding r_def r'_def by simp
qed

section \<open>The histogram of declared lengths\<close>

lemma packetHandler_histogram_length:
  "length (packet_lengths (snd (packetHandler L a1 a2 f s))) = length (packet_lengths s)"
  by (simp add: packetHandler_unfold Let_def get_payload_keeps split: sum.splits)

lemma pcap_loop_histogram_length:
  "length (packet_lengths (snd (pcap_loop (packetHandler L a1 a2) fs s))) =
     length (packet_lengths s)"
proof (induction fs arbitrary: s)
  case Nil
  then show ?case by simp
next
  case (Cons f fs)
  show ?case
    using packetHandler_histogram_length[of L a1 a2 f s] Cons.IH
    by (cases "packetHandler L a1 a2 f s") (auto split: option.splits)
qed

lemma packetHandler_index_error:
  "fst (packetHandler L a1 a2 f s) = Some IndexOutOfRange \<longleftrightarrow>
     length (packet_lengths s) \<le> unat (len f)"
proof (cases rule: packetHandler_cases[where f=f and s=s and L=L and ?a1.0=a1 and ?a2.0=a2])
  case (payload_error e)
  from get_payload_error[OF payload_error(2)] payload_error show ?thesis
    by auto
qed simp_all

text \<open>
  Claim C10. In every state \<open>s\<close> that a run reaches, the histogram has its 2048 entries.
  The callback indexes it with the declared length of the frame and checks nothing: the
  access is out of range, and the model stops there with the state unchanged, exactly when
  the declared length is 2048 or more; for a smaller declared length the entry at that
  index is incremented.
\<close>

theorem histogram_access_in_range:
  fixes L :: "'nfa \<Rightarrow> byte list \<Rightarrow> bool" and aut1 aut2 :: 'nfa
    and fs :: "frame list" and c :: "event list"
  defines "s \<equiv> snd (pcap_loop (packetHandler L aut1 aut2) fs (init_globals\<lparr>cout := c\<rparr>))"
  shows "length (packet_lengths s) = 2048 \<and>
    (fst (packetHandler L aut1 aut2 f s) = Some IndexOutOfRange \<longleftrightarrow> 2048 \<le> unat (len f)) \<and>
    (2048 \<le> unat (len f) \<longrightarrow> packetHandler L aut1 aut2 f s = (Some IndexOutOfRange, s)) \<and>
    (unat (len f) < 2048 \<longrightarrow>
       packet_lengths (snd (packetHandler L aut1 aut2 f s)) =
         (packet_lengths s)[unat (len f) := packet_lengths s ! unat (len f) + 1])"
proof -
  have n: "length (packet_lengths s) = 2048"
    unfolding s_def by (simp add: pcap_loop_histogram_length init_globals_def)
  have "packet_lengths (snd (packetHandler L aut1 aut2 f s)) =
      (packet_lengths s)[unat (len f) := packet_lengths s ! unat (len f) + 1]"
    if "unat (len f) < 2048"
    using that n
    by (simp add: packetHandler_unfold Let_def get_payload_keeps split: sum.splits)
  moreover have "packetHandler L aut1 aut2 f s = (Some IndexOutOfRange, s)"
    if "2048 \<le> unat (len f)"
    using that n by (simp add: packetHandler_def)
  ultimately show ?thesis
    using n packetHandler_index_error[of L aut1 aut2 f s] by simp
qed

theorem histogram_access_in_range_witness:
  "packetHandler starts_with 0 1 long_frame
     (snd (pcap_loop (packetHandler starts_with 0 1) [udp_frame] (init_globals\<lparr>cout := []\<rparr>)))
   = (Some IndexOutOfRange,
      snd (pcap_loop (packetHandler starts_with 0 1) [udp_frame] (init_globals\<lparr>cout := []\<rparr>))) \<and>
   unat (len long_frame) = 2048 \<and> unat (len udp_frame) = 46 \<and>
   fst (packetHandler starts_with 0 1 udp_frame
     (snd (pcap_loop (packetHandler starts_with 0 1) [udp_frame] (init_globals\<lparr>cout := []\<rparr>))))
   \<noteq> Some IndexOutOfRange \<and>
   packet_lengths (snd (packetHandler starts_with 0 1 udp_frame
     (snd (pcap_loop (packetHandler starts_with 0 1) [udp_frame] (init_globals\<lparr>cout := []\<rparr>)))))
     ! 46 = 2"
proof -
  define s where
    "s = snd (pcap_loop (packetHandler starts_with (0::byte) 1) [udp_frame] (init_globals\<lparr>cout := []\<rparr>))"
  have l: "unat (len long_frame) = 2048" "unat (len udp_frame) = 46"
    by (simp_all add: long_frame_def udp_frame_def)
  have h: "packet_lengths s ! 46 = 1"
    unfolding s_def by (simp add: handler_eval udp_frame_def)
  note a = histogram_access_in_range [of starts_with 0 1 "[udp_frame]" "[]" long_frame,
      folded s_def]
  note b = histogram_access_in_range [of starts_with 0 1 "[udp_frame]" "[]" udp_frame,
      folded s_def]
  from a b l h show ?thesis
    unfolding s_def [symmetric] by simp
qed

section \<open>The output holds a report only at the end\<close>

lemma l4_loop_no_report:
  "list_ex is_Report (cout (snd (l4_loop f off p b s))) = list_ex is_Report (cout s)"
proof (induction f off p b s rule: l4_loop_induct)
  case (loop f off p b s)
  show ?case
  proof (cases p rule: l4_proto_cases)
    case IPIP
    then show ?thesis using loop.IH(1)
      by (simp add: l4_loop_IPIP split: sum.splits)
  next
    case FRAGMENT
    then show ?thesis using loop.IH(2)
      by (simp add: l4_loop_FRAGMENT split: sum.splits)
  qed (simp_all add: l4_loop_eqs is_Report_def split: sum.splits)
qed

lemma get_payload_no_report:
  "list_ex is_Report (cout (snd (get_payload f s))) = list_ex is_Report (cout s)"
  by (cases f s rule: get_payload_cases) (simp_all add: l4_loop_no_report)

lemma packetHandler_no_report:
  "list_ex is_Report (cout (snd (packetHandler L a1 a2 f s))) = list_ex is_Report (cout s)"
  by (simp add: packetHandler_unfold Let_def get_payload_no_report is_Report_def
      split: sum.splits)

lemma pcap_loop_no_report:
  "list_ex is_Report (cout (snd (pcap_loop (packetHandler L a1 a2) fs s))) =
     list_ex is_Report (cout s)"
proof (induction fs arbitrary: s)
  case Nil
  then show ?case by simp
next
  case (Cons f fs)
  show ?case
    using packetHandler_no_report[of L a1 a2 f s] Cons.IH
    by (cases "packetHandler L a1 a2 f s") (auto split: option.splits)
qed

lemma main_report_iff_success:
  "list_ex is_Report (snd (main E argv)) \<longleftrightarrow> fst (main E argv) = Returned EXIT_SUCCESS"
proof -
  have "list_ex is_Report (cout (snd (pcap_loop (packetHandler L a1 a2) fs
      (init_globals\<lparr>cout := [AutDump x, AutDump y]\<rparr>)))) = False" for L a1 a2 fs x y
    by (simp add: pcap_loop_no_report is_Report_def)
  then have nr: "pcap_loop (packetHandler L a1 a2) fs
      (init_globals\<lparr>cout := [AutDump x, AutDump y]\<rparr>) = (r, t) \<Longrightarrow>
      \<not> list_ex is_Report (cout t)" for L a1 a2 fs x y r t
    by (metis snd_conv)
  have codes: "EXIT_FAILURE \<noteq> EXIT_SUCCESS"
    by (simp add: EXIT_FAILURE_def EXIT_SUCCESS_def)
  show ?thesis
    using codes
    by (auto simp: main_def Let_def is_Report_def print_usage_def dest: nr
        split: sum.splits prod.splits option.splits if_splits)
qed

section \<open>The exit codes of \<^verbatim>\<open>main\<close>\<close>

text \<open>
  Claim C9, as amended. When the number of arguments is wrong, when one of the two automata
  does not load, or when the capture file does not open, \<^verbatim>\<open>main\<close> returns
  \<^verbatim>\<open>EXIT_FAILURE\<close>, the one failure code of the program, which differs from
  \<^verbatim>\<open>EXIT_SUCCESS\<close>. The report is written exactly when \<^verbatim>\<open>main\<close> returns
  \<^verbatim>\<open>EXIT_SUCCESS\<close>, so no failure leaves a report, not even a partial one.
\<close>

theorem main_failure_exit_code:
  fixes E E' :: "'nfa env"
  assumes "length argv \<noteq> 4 \<or> isl (load_aut E (argv ! 1)) \<or> isl (load_aut E (argv ! 2)) \<or>
    isl (pcap_open_offline E (argv ! 3))"
  shows "fst (main E argv) = Returned EXIT_FAILURE \<and> EXIT_FAILURE \<noteq> EXIT_SUCCESS \<and>
    \<not> list_ex is_Report (snd (main E argv)) \<and>
    (list_ex is_Report (snd (main E' argv')) \<longleftrightarrow> fst (main E' argv') = Returned EXIT_SUCCESS)"
proof -
  have codes: "EXIT_FAILURE \<noteq> EXIT_SUCCESS"
    by (simp add: EXIT_FAILURE_def EXIT_SUCCESS_def)
  have fail: "fst (main E argv) = Returned EXIT_FAILURE"
    using assms
    by (auto simp: main_def Let_def split: sum.splits prod.splits option.splits)
  from fail main_report_iff_success[of E argv] main_report_iff_success[of E' argv'] codes
  show ?thesis
    by simp
qed

theorem main_failure_exit_code_witness:
  "fst (main no_files_env [''diff-sampler'']) = Returned EXIT_FAILURE \<and>
   snd (main no_files_env [''diff-sampler'']) = [Usage (Some ''diff-sampler'')] \<and>
   fst (main no_files_env [''diff-sampler'', ''a.vtf'', ''b.vtf'', ''p.pcap''])
     = Returned EXIT_FAILURE \<and>
   snd (main no_files_env [''diff-sampler'', ''a.vtf'', ''b.vtf'', ''p.pcap''])
     = [LoadError ''Cannot open file a.vtf''] \<and>
   fst (main no_capture_env [''diff-sampler'', ''a.vtf'', ''b.vtf'', ''p.pcap''])
     = Returned EXIT_FAILURE \<and>
   \<not> list_ex is_Report (snd (main no_capture_env [''diff-sampler'', ''a.vtf'', ''b.vtf'', ''p.pcap''])) \<and>
   fst (main (capture_env [udp_frame, arp_frame]) [''diff-sampler'', ''a.vtf'', ''b.vtf'', ''p.pcap''])
     = Returned EXIT_SUCCESS \<and>
   list_ex is_Report
     (snd (main (capture_env [udp_frame, arp_frame]) [''diff-sampler'', ''a.vtf'', ''b.vtf'', ''p.pcap'']))"
proof -
  have u: "length [''diff-sampler''] \<noteq> 4 \<or> isl (load_aut no_files_env ([''diff-sampler''] ! 1)) \<or>
      isl (load_aut no_files_env ([''diff-sampler''] ! 2)) \<or>
      isl (pcap_open_offline no_files_env ([''diff-sampler''] ! 3))"
    by simp
  have l: "length [''diff-sampler'', ''a.vtf'', ''b.vtf'', ''p.pcap''] \<noteq> 4 \<or>
      isl (load_aut no_files_env ([''diff-sampler'', ''a.vtf'', ''b.vtf'', ''p.pcap''] ! 1)) \<or>
      isl (load_aut no_files_env ([''diff-sampler'', ''a.vtf'', ''b.vtf'', ''p.pcap''] ! 2)) \<or>
      isl (pcap_open_offline no_files_env ([''diff-sampler'', ''a.vtf'', ''b.vtf'', ''p.pcap''] ! 3))"
    by (simp add: load_aut_def no_files_env_def)
  have p: "length [''diff-sampler'', ''a.vtf'', ''b.vtf'', ''p.pcap''] \<noteq> 4 \<or>
      isl (load_aut no_capture_env ([''diff-sampler'', ''a.vtf'', ''b.vtf'', ''p.pcap''] ! 1)) \<or>
      isl (load_aut no_capture_env ([''diff-sampler'', ''a.vtf'', ''b.vtf'', ''p.pcap''] ! 2)) \<or>
      isl (pcap_open_offline no_capture_env ([''diff-sampler'', ''a.vtf'', ''b.vtf'', ''p.pcap''] ! 3))"
    by (simp add: no_capture_env_def)
  have ok: "fst (main (capture_env [udp_frame, arp_frame])
      [''diff-sampler'', ''a.vtf'', ''b.vtf'', ''p.pcap'']) = Returned EXIT_SUCCESS"
    by (simp add: main_def capture_env_def load_aut_def handler_eval udp_frame_def arp_frame_def)
  have out: "snd (main no_files_env [''diff-sampler'']) = [Usage (Some ''diff-sampler'')]"
    "snd (main no_files_env [''diff-sampler'', ''a.vtf'', ''b.vtf'', ''p.pcap''])
     = [LoadError ''Cannot open file a.vtf'']"
    by (simp_all add: main_def print_usage_def load_aut_def no_files_env_def)
  from main_failure_exit_code [OF u, of "capture_env [udp_frame, arp_frame]"
      "[''diff-sampler'', ''a.vtf'', ''b.vtf'', ''p.pcap'']"]
    main_failure_exit_code [OF l, of no_files_env "[]"]
    main_failure_exit_code [OF p, of no_files_env "[]"] ok out
  show ?thesis
    by simp
qed

text \<open>
  The claim as it stands speaks of two failure codes, one for the usage error and one for
  the errors of loading and opening. The program has one: a wrong number of arguments, an
  automaton that does not load and a capture that does not open all end with the same
  exit code 1.
\<close>

theorem one_failure_exit_code_counterexample:
  "fst (main no_files_env [''diff-sampler'']) = Returned 1 \<and>
   fst (main no_files_env [''diff-sampler'', ''a.vtf'', ''b.vtf'', ''p.pcap'']) = Returned 1 \<and>
   fst (main no_capture_env [''diff-sampler'', ''a.vtf'', ''b.vtf'', ''p.pcap'']) = Returned 1"
  by (simp add: main_def load_aut_def no_files_env_def no_capture_env_def EXIT_FAILURE_def)

section \<open>A second IP-in-IP layer aborts, a single one does not\<close>

lemma packetHandler_assertion:
  "fst (packetHandler L a1 a2 f s) = Some AssertionFailed \<longleftrightarrow>
     unat (len f) < length (packet_lengths s) \<and> fst (get_payload f s) = Inl AssertionFailed"
proof -
  have "fst (get_payload f s) = payload_of f"
    by (rule get_payload_fst)
  then show ?thesis
    by (auto simp: packetHandler_unfold Let_def split: sum.splits dest: Word_symbols_error)
qed

text \<open>
  Claim C4. The counter \<^verbatim>\<open>ipip_packets\<close> is incremented each time the loop meets the
  IP-in-IP protocol, so the number of times a call of \<^verbatim>\<open>get_payload\<close> meets it is the
  amount by which the call raises the counter. That amount is 0, 1 or 2, and the call ends in
  the failed assertion exactly when it is 2: the second IP-in-IP layer aborts, a single
  level of tunnelling never does. In the loop itself, meeting IP-in-IP with the flag
  \<^verbatim>\<open>ip_in_ip\<close> already set is the failed assertion. The failed assertion of
  \<^verbatim>\<open>get_payload\<close> is the only one of the callback, and it ends the capture loop: the
  process stops, whatever frames follow. The assertion is taken as enabled (the program
  does not define \<^verbatim>\<open>NDEBUG\<close>).
\<close>

theorem second_ipip_layer_aborts:
  "(fst (get_payload f s) = Inl AssertionFailed \<longleftrightarrow>
      ipip_packets (snd (get_payload f s)) = ipip_packets s + 2) \<and>
   (ipip_packets (snd (get_payload f s)) = ipip_packets s \<or>
    ipip_packets (snd (get_payload f s)) = ipip_packets s + 1 \<or>
    ipip_packets (snd (get_payload f s)) = ipip_packets s + 2) \<and>
   l4_loop f off IPPROTO_IPIP True s =
     (Inl AssertionFailed, s\<lparr>ipip_packets := ipip_packets s + 1\<rparr>) \<and>
   (fst (packetHandler L aut1 aut2 f s) = Some AssertionFailed \<longleftrightarrow>
      unat (len f) < length (packet_lengths s) \<and> fst (get_payload f s) = Inl AssertionFailed) \<and>
   (fst (packetHandler L aut1 aut2 f s) = Some AssertionFailed \<longrightarrow>
      fst (pcap_loop (packetHandler L aut1 aut2) (f # fs) s) = Some AssertionFailed)"
  using get_payload_ipip[of f s] packetHandler_assertion[of L aut1 aut2 f s]
  by (cases "packetHandler L aut1 aut2 f s") (auto simp: l4_loop_IPIP)

theorem second_ipip_layer_aborts_witness:
  "fst (get_payload ipip_ipip_udp_frame init_globals) = Inl AssertionFailed \<and>
   ipip_packets (snd (get_payload ipip_ipip_udp_frame init_globals)) = 2 \<and>
   fst (get_payload ipip_udp_frame init_globals) = Inr (RangeWord 62 66) \<and>
   fst (get_payload ipip_udp_frame init_globals) \<noteq> Inl AssertionFailed \<and>
   ipip_packets (snd (get_payload ipip_udp_frame init_globals)) = 1 \<and>
   fst (pcap_loop (packetHandler starts_with 0 1) [ipip_ipip_udp_frame, udp_frame] init_globals)
     = Some AssertionFailed \<and>
   fst (main (capture_env [ipip_ipip_udp_frame, udp_frame])
     [''diff-sampler'', ''a.vtf'', ''b.vtf'', ''p.pcap'']) = Stopped AssertionFailed"
proof -
  have two: "ipip_packets (snd (get_payload ipip_ipip_udp_frame init_globals)) =
      ipip_packets init_globals + 2"
    by (simp add: frame_eval ipip_ipip_udp_frame_def init_globals_def)
  have one: "ipip_packets (snd (get_payload ipip_udp_frame init_globals)) =
      ipip_packets init_globals + 1"
    "fst (get_payload ipip_udp_frame init_globals) = Inr (RangeWord 62 66)"
    by (simp_all add: frame_eval ipip_udp_frame_def init_globals_def)
  have zero: "ipip_packets init_globals = 0"
    and l: "unat (len ipip_ipip_udp_frame) < length (packet_lengths init_globals)"
    by (simp_all add: init_globals_def ipip_ipip_udp_frame_def)
  note a = second_ipip_layer_aborts
    [of ipip_ipip_udp_frame init_globals 0 starts_with 0 1 "[udp_frame]"]
  from a two have ab: "fst (get_payload ipip_ipip_udp_frame init_globals) = Inl AssertionFailed"
    by blast
  with a l have run: "fst (pcap_loop (packetHandler starts_with 0 1)
      [ipip_ipip_udp_frame, udp_frame] init_globals) = Some AssertionFailed"
    by blast
  from second_ipip_layer_aborts [of ipip_udp_frame init_globals 0 starts_with 0 1 "[]"] one
  have no: "fst (get_payload ipip_udp_frame init_globals) \<noteq> Inl AssertionFailed"
    by simp
  have m: "fst (main (capture_env [ipip_ipip_udp_frame, udp_frame])
     [''diff-sampler'', ''a.vtf'', ''b.vtf'', ''p.pcap'']) = Stopped AssertionFailed"
    by (simp add: main_def capture_env_def load_aut_def handler_eval ipip_ipip_udp_frame_def)
  from ab run no m one two zero show ?thesis
    by simp
qed


section \<open>The progress tick\<close>

lemma get_payload_arp_frame:
  "get_payload arp_frame s = (Inr EmptyWord, s\<lparr>other_l3_packets := other_l3_packets s + 1\<rparr>)"
  by (simp add: frame_eval arp_frame_def)

lemma pcap_loop_arp_frames:
  assumes "60 < length (packet_lengths s)"
  shows "fst (pcap_loop (packetHandler L a1 a2) (replicate n arp_frame) s) = None \<and>
    total_packets (snd (pcap_loop (packetHandler L a1 a2) (replicate n arp_frame) s))
      = total_packets s + of_nat n \<and>
    cout (snd (pcap_loop (packetHandler L a1 a2) (replicate n arp_frame) s)) = cout s"
  using assms
proof (induction n arbitrary: s)
  case 0
  then show ?case by simp
next
  case (Suc n)
  define t where "t = s\<lparr>packet_lengths := (packet_lengths s)[60 := packet_lengths s ! 60 + 1],
      total_packets := total_packets s + 1, other_l3_packets := other_l3_packets s + 1\<rparr>"
  have l: "unat (len arp_frame) = 60"
    by (simp add: arp_frame_def)
  have step: "packetHandler L a1 a2 arp_frame s = (None, t)"
    using Suc.prems
    by (simp add: packetHandler_def l get_payload_arp_frame Word_empty_def t_def)
  have "60 < length (packet_lengths t)"
    using Suc.prems by (simp add: t_def)
  from Suc.IH[OF this] step show ?case
    by (simp add: t_def)
qed

lemma pcap_loop_append:
  "pcap_loop h (xs @ ys) s =
     (case pcap_loop h xs s of (None, t) \<Rightarrow> pcap_loop h ys t | (Some e, t) \<Rightarrow> (Some e, t))"
  by (induction xs arbitrary: s) (auto split: prod.splits option.splits)

lemma get_payload_udp_frame:
  "get_payload udp_frame s =
     (Inr (RangeWord 42 46),
      s\<lparr>ipv4_packets := ipv4_packets s + 1, udp_packets := udp_packets s + 1\<rparr>)"
  by (simp add: frame_eval udp_frame_def)

lemma packetHandler_udp_frame:
  assumes "46 < length (packet_lengths s)"
  shows "fst (packetHandler L a1 a2 udp_frame s) = None \<and>
    cout (snd (packetHandler L a1 a2 udp_frame s)) =
      cout s @ (if (total_packets s + 1) mod 1000 = 0 then [Tick] else [])"
proof -
  have l: "unat (len udp_frame) = 46"
    by (simp add: udp_frame_def)
  have w: "Word_symbols (memory udp_frame) (RangeWord 42 46) = Inr [0, 2, 3, 4]"
    by (simp add: Word_symbols_def memory_def udp_frame_def)
  show ?thesis
    using assms
    by (simp add: packetHandler_def l get_payload_udp_frame w Word_empty_def Let_def)
qed

text \<open>
  Claim C8 says that the callback ticks at every frame whose number is a multiple of 1000,
  whether or not the frame has a payload. The callback returns before the tick when the
  payload is empty: in a capture of 1000 ARP frames the thousandth frame brings the counter
  of all frames to 1000 and nothing is written, whereas a thousandth frame that has a
  payload is followed by the tick.
\<close>

theorem no_tick_at_frame_without_payload:
  "fst (pcap_loop (packetHandler L aut1 aut2) (replicate 1000 arp_frame) init_globals) = None \<and>
   total_packets (snd (pcap_loop (packetHandler L aut1 aut2) (replicate 1000 arp_frame) init_globals))
     = 1000 \<and>
   (1000 :: size_t) mod 1000 = 0 \<and>
   cout (snd (pcap_loop (packetHandler L aut1 aut2) (replicate 1000 arp_frame) init_globals)) = [] \<and>
   cout (snd (pcap_loop (packetHandler L aut1 aut2) (replicate 999 arp_frame @ [udp_frame])
     init_globals)) = [Tick]"
proof -
  define t where "t = snd (pcap_loop (packetHandler L aut1 aut2) (replicate 999 arp_frame) init_globals)"
  have a: "fst (pcap_loop (packetHandler L aut1 aut2) (replicate 999 arp_frame) init_globals) = None"
    "total_packets t = 999" "cout t = []"
    unfolding t_def using pcap_loop_arp_frames[of init_globals L aut1 aut2 999]
    by (simp_all add: init_globals_def)
  have "length (packet_lengths t) = 2048"
    unfolding t_def by (simp add: pcap_loop_histogram_length init_globals_def)
  then have "cout (snd (packetHandler L aut1 aut2 udp_frame t)) = [Tick]"
    "fst (packetHandler L aut1 aut2 udp_frame t) = None"
    using packetHandler_udp_frame[of t L aut1 aut2] a by simp_all
  moreover have "pcap_loop (packetHandler L aut1 aut2) (replicate 999 arp_frame) init_globals
      = (None, t)"
    using a(1) by (simp add: t_def prod_eq_iff)
  ultimately have "cout (snd (pcap_loop (packetHandler L aut1 aut2)
      (replicate 999 arp_frame @ [udp_frame]) init_globals)) = [Tick]"
    by (cases "packetHandler L aut1 aut2 udp_frame t") (simp add: pcap_loop_append)
  with pcap_loop_arp_frames[of init_globals L aut1 aut2 1000] show ?thesis
    by (simp add: init_globals_def)
qed

end
